theory Spec2Isabelle
  imports Main "HOL-Library.Sublist"
begin

section \<open>The URL filters of crawler.go\<close>

text \<open>
  Go strings are byte sequences; a \<^typ>\<open>string\<close> is a list of 8-bit characters, so a URL is
  modelled byte for byte.
\<close>

subsection \<open>isSameDomain\<close>

text \<open>
  \<^verbatim>\<open>strings.HasPrefix(s, prefix)\<close> of the Go standard library is
  \<^verbatim>\<open>len(s) >= len(prefix) && s[:len(prefix)] == prefix\<close>.
\<close>

definition HasPrefix :: "string \<Rightarrow> string \<Rightarrow> bool" where
  "HasPrefix s pre = (length s \<ge> length pre \<and> take (length pre) s = pre)"

text \<open>
  \<^verbatim>\<open>
  func isSameDomain(domain, url string) bool {
      if strings.HasPrefix(url, domain) { return true }
      return false
  }
  \<close>
\<close>

definition isSameDomain :: "string \<Rightarrow> string \<Rightarrow> bool" where
  "isSameDomain domain url = (if HasPrefix url domain then True else False)"

subsection \<open>isImageLink\<close>

text \<open>
  The function compiles the pattern
  \<^verbatim>\<open>([^\s]+(\.(?i)(jpg|png|gif|bmp|tiff))$)\<close>
  and asks whether the URL contains a match. The pattern is kept as a syntax tree with the
  operators it uses: literals (with the fold-case flag that \<^verbatim>\<open>(?i)\<close> sets), character classes
  (possibly negated), concatenation, alternation, \<^verbatim>\<open>+\<close>, capture groups and the
  end-of-text assertion.
\<close>

datatype regex =
    Literal bool string
  | CharClass bool "char list"
  | Concat regex regex
  | Alternate regex regex
  | Plus regex
  | Capture regex
  | EndText

text \<open>Fold-case comparison of the ASCII letters (none of the pattern's letters has a
  non-ASCII case variant).\<close>

definition lower :: "char \<Rightarrow> char" where
  "lower c = (let k = (of_char c :: nat) in if 65 \<le> k \<and> k \<le> 90 then char_of (k + 32) else c)"

definition lit_eq :: "bool \<Rightarrow> string \<Rightarrow> string \<Rightarrow> bool" where
  "lit_eq fc a b = (if fc then map lower a = map lower b else a = b)"

text \<open>
  \<open>iter f k s\<close>: the inputs left after one or more rounds of \<open>f\<close> from \<open>s\<close>, at most
  \<open>k\<close> rounds deep.
\<close>

fun iter :: "(string \<Rightarrow> string list) \<Rightarrow> nat \<Rightarrow> string \<Rightarrow> string list" where
  "iter f 0 s = []"
| "iter f (Suc k) s = (let ts = f s in ts @ concat (map (iter f k) ts))"

text \<open>
  \<open>ends r s\<close> lists what is left of the input \<open>s\<close> after each way of matching \<open>r\<close> at
  its start; \<open>r\<close> matches at the start of \<open>s\<close> iff the list is not empty.
\<close>

primrec ends :: "regex \<Rightarrow> string \<Rightarrow> string list" where
  "ends (Literal fc lit) = (\<lambda>s.
     if length lit \<le> length s \<and> lit_eq fc (take (length lit) s) lit
     then [drop (length lit) s] else [])"
| "ends (CharClass neg cs) = (\<lambda>s.
     case s of [] \<Rightarrow> [] | c # t \<Rightarrow> if (c \<in> set cs) \<noteq> neg then [t] else [])"
| "ends (Concat a b) = (\<lambda>s. concat (map (ends b) (ends a s)))"
| "ends (Alternate a b) = (\<lambda>s. ends a s @ ends b s)"
| "ends (Plus r) = (\<lambda>s. iter (ends r) (Suc (length s)) s)"
| "ends (Capture r) = ends r"
| "ends EndText = (\<lambda>s. if s = [] then [[]] else [])"

text \<open>\<^verbatim>\<open>MatchString\<close> is unanchored: a match may start at any position of the input.\<close>

definition MatchString :: "regex \<Rightarrow> string \<Rightarrow> bool" where
  "MatchString re s = list_ex (\<lambda>i. ends re (drop i s) \<noteq> []) [0 ..< Suc (length s)]"

text \<open>The class \<^verbatim>\<open>\s\<close> of Go's regexp syntax is \<^verbatim>\<open>[\t\n\f\r ]\<close>.\<close>

definition whitespace :: "char list" where
  "whitespace = [CHR 0x09, CHR 0x0A, CHR 0x0C, CHR 0x0D, CHR 0x20]"

definition exp :: regex where
  "exp = Capture
     (Concat (Plus (CharClass True whitespace))
       (Concat
         (Capture (Concat (Literal False ''.'')
            (Capture (Alternate (Literal True ''jpg'')
                     (Alternate (Literal True ''png'')
                     (Alternate (Literal True ''gif'')
                     (Alternate (Literal True ''bmp'') (Literal True ''tiff''))))))))
         EndText))"

text \<open>
  \<^verbatim>\<open>
  func isImageLink(url string) bool {
      exp := regexp.MustCompile(`([^\s]+(\.(?i)(jpg|png|gif|bmp|tiff))$)`)
      if exp.MatchString(url) { return true }
      return false
  }
  \<close>
\<close>

definition isImageLink :: "string \<Rightarrow> bool" where
  "isImageLink url = (if MatchString exp url then True else False)"

section \<open>The crawl: scheduler, workers, limiter\<close>

subsection \<open>The Fetcher\<close>

text \<open>
  \<^verbatim>\<open>Get(url string) (links []string, err error)\<close>: a fetcher answers a URL with an error
  (\<open>Inl\<close>, its message) or with the links of the page (\<open>Inr\<close>).
\<close>

type_synonym fetcher = "string \<Rightarrow> string + string list"

text \<open>
  The test implementation is a table of pages:
  \<^verbatim>\<open>
  func (t testFetcher) Get(url string) ([]string, error) {
      if links, ok := t[url]; ok { return links, nil }
      return nil, fmt.Errorf("could not find URL %s", url)
  }
  \<close>
\<close>

definition testFetcher :: "(string \<times> string list) list \<Rightarrow> fetcher" where
  "testFetcher t url =
     (case map_of t url of
        Some links \<Rightarrow> Inr links
      | None \<Rightarrow> Inl (''could not find URL '' @ url))"

definition tester :: "(string \<times> string list) list" where
  "tester =
    [(''http://golang.org'',
        [''http://golang.org/test.html'',
         ''http://golang.org/test2.html'',
         ''http://golang.org/images/gopher.jpg'',
         ''http://goweeklynews.com'']),
     (''http://golang.org/test.html'',
        [''http://golang.org/testing.html'',
         ''http://golang.org/images/gopher.jpg'',
         ''http://linkedin.com/golang'']),
     (''http://golang.org/test2.html'', [''http://golang.org'']),
     (''http://golang.org/testing.html'', [''http://golang.org''])]"

subsection \<open>State\<close>

text \<open>
  A goroutine is identified by the statement it executes next. \<open>GSeed\<close> is the anonymous
  goroutine \<^verbatim>\<open>go func() { pages <- []string{url} }()\<close>; the others are the stages of a worker
  \<^verbatim>\<open>go func(link string) { list := getLinks(link); mutex.Lock(); sitemap[link] = list;
  mutex.Unlock(); pages <- list }(link)\<close>, with \<^verbatim>\<open>getLinks\<close> inlined:
  \<^item> \<open>GAcquire link\<close>: at \<^verbatim>\<open>counter <- struct{}{}\<close>;
  \<^item> \<open>GGet link\<close>: at \<^verbatim>\<open>links, err := fetcher.Get(url)\<close>, holding a slot of the limiter;
  \<^item> \<open>GRelease link r\<close>: at \<^verbatim>\<open><-counter\<close>, with the fetcher's answer \<open>r\<close>;
  \<^item> \<open>GLock link list\<close>: \<^verbatim>\<open>getLinks\<close> has returned \<open>list\<close>; at \<^verbatim>\<open>mutex.Lock()\<close>;
  \<^item> \<open>GStore link list\<close>: at \<^verbatim>\<open>sitemap[link] = list\<close>, holding the mutex;
  \<^item> \<open>GUnlock link list\<close>: at \<^verbatim>\<open>mutex.Unlock()\<close>;
  \<^item> \<open>GSend link list\<close>: at \<^verbatim>\<open>pages <- list\<close>.
\<close>

datatype goroutine =
    GSeed string
  | GAcquire string
  | GGet string
  | GRelease string "string + string list"
  | GLock string "string list"
  | GStore string "string list"
  | GUnlock string "string list"
  | GSend string "string list"

text \<open>
  The scheduling loop \<^verbatim>\<open>for ; n > 0; n-- { links := <-pages; for _, link := range links {...} }\<close>
  of \<^verbatim>\<open>crawlDomain\<close>: \<open>SCheck\<close> is at the condition \<^verbatim>\<open>n > 0\<close>, \<open>SRecv\<close> at the receive,
  \<open>SRange rest\<close> inside the inner loop with \<open>rest\<close> still to visit (\<open>SRange []\<close> is at
  the post statement \<^verbatim>\<open>n--\<close>), \<open>SDone\<close> after the loop: \<^verbatim>\<open>crawlDomain\<close> has returned.
\<close>

datatype sched = SCheck | SRecv | SRange "string list" | SDone

text \<open>
  What has happened so far, kept beside the program's variables to state how often
  something happens; the program neither reads nor branches on it.
\<close>

datatype event =
    Marked string
  | Spawned string
  | Acquired string
  | Fetched string
  | Released string
  | Stored string
  | Delivered string
  | SeedDelivered
  | Decremented

text \<open>
  The variables of one call of \<^verbatim>\<open>crawlDomain\<close>: the maps \<^verbatim>\<open>visited\<close> and \<^verbatim>\<open>sitemap\<close>, the
  count \<^verbatim>\<open>n\<close> (\<open>n_left\<close>), the number of elements in the buffered channel \<^verbatim>\<open>counter\<close>,
  whether \<^verbatim>\<open>mutex\<close> is locked, the position of the scheduling loop, the live goroutines,
  and the lines printed by \<^verbatim>\<open>fmt.Println(err)\<close>. The channel \<^verbatim>\<open>pages\<close> is unbuffered:
  it holds nothing, a send and the receive happen together.
\<close>

record state =
  visited :: "string \<rightharpoonup> bool"
  sitemap :: "string \<rightharpoonup> string list"
  n_left :: int
  counter :: nat
  mutex :: bool
  sched :: sched
  gs :: "goroutine list"
  stdout :: "string list"
  hist :: "event list"

text \<open>\<^verbatim>\<open>counter = make(chan struct{}, 20)\<close>\<close>

definition counter_cap :: nat where
  "counter_cap = 20"

text \<open>Reading a Go \<^verbatim>\<open>map[string]bool\<close> at a missing key gives \<^verbatim>\<open>false\<close>.\<close>

definition lookup :: "(string \<rightharpoonup> bool) \<Rightarrow> string \<Rightarrow> bool" where
  "lookup m k = (case m k of None \<Rightarrow> False | Some b \<Rightarrow> b)"

text \<open>The state after the declarations of \<^verbatim>\<open>crawlDomain(url)\<close>, at the loop's first test.\<close>

definition init :: "string \<Rightarrow> state" where
  "init url = \<lparr> visited = Map.empty, sitemap = Map.empty, n_left = 1, counter = 0,
     mutex = False, sched = SCheck, gs = [GSeed url], stdout = [], hist = [] \<rparr>"

subsection \<open>Steps\<close>

text \<open>
  \<open>gstep F s g\<close>: the next statement of goroutine \<open>g\<close> in state \<open>s\<close>. \<open>None\<close>: the
  goroutine is blocked (a send on the full \<^verbatim>\<open>counter\<close>, a locked mutex, nobody receiving
  from \<^verbatim>\<open>pages\<close>). Otherwise the goroutine's next stage (\<open>None\<close> when it has ended) and the
  new state. \<^verbatim>\<open>getLinks\<close> returns \<^verbatim>\<open>nil\<close>, the empty list, after printing the error.
\<close>

fun gstep :: "fetcher \<Rightarrow> state \<Rightarrow> goroutine \<Rightarrow> (goroutine option \<times> state) option" where
  "gstep F s (GSeed url) =
     (if sched s = SRecv
      then Some (None, s\<lparr>sched := SRange [url], hist := hist s @ [SeedDelivered]\<rparr>)
      else None)"
| "gstep F s (GAcquire link) =
     (if counter s < counter_cap
      then Some (Some (GGet link), s\<lparr>counter := counter s + 1, hist := hist s @ [Acquired link]\<rparr>)
      else None)"
| "gstep F s (GGet link) =
     Some (Some (GRelease link (F link)), s\<lparr>hist := hist s @ [Fetched link]\<rparr>)"
| "gstep F s (GRelease link r) =
     (if counter s > 0
      then (case r of
              Inl err \<Rightarrow> Some (Some (GLock link []),
                 s\<lparr>counter := counter s - 1, stdout := stdout s @ [err],
                   hist := hist s @ [Released link]\<rparr>)
            | Inr links \<Rightarrow> Some (Some (GLock link links),
                 s\<lparr>counter := counter s - 1, hist := hist s @ [Released link]\<rparr>))
      else None)"
| "gstep F s (GLock link list) =
     (if \<not> mutex s then Some (Some (GStore link list), s\<lparr>mutex := True\<rparr>) else None)"
| "gstep F s (GStore link list) =
     Some (Some (GUnlock link list),
       s\<lparr>sitemap := (sitemap s)(link \<mapsto> list), hist := hist s @ [Stored link]\<rparr>)"
| "gstep F s (GUnlock link list) =
     Some (Some (GSend link list), s\<lparr>mutex := False\<rparr>)"
| "gstep F s (GSend link list) =
     (if sched s = SRecv
      then Some (None, s\<lparr>sched := SRange list, hist := hist s @ [Delivered link]\<rparr>)
      else None)"

text \<open>
  \<open>sstep url s\<close>: the next statement of the scheduling loop, \<open>None\<close> when it waits for
  \<^verbatim>\<open>pages\<close> or has returned. Only this loop touches \<^verbatim>\<open>visited\<close> and \<^verbatim>\<open>n\<close>, so the body of
  the \<^verbatim>\<open>if\<close> is one step.
\<close>

definition sstep :: "string \<Rightarrow> state \<Rightarrow> state option" where
  "sstep url s =
     (case sched s of
        SCheck \<Rightarrow> Some (if n_left s > 0 then s\<lparr>sched := SRecv\<rparr> else s\<lparr>sched := SDone\<rparr>)
      | SRecv \<Rightarrow> None
      | SRange [] \<Rightarrow>
          Some (s\<lparr>n_left := n_left s - 1, sched := SCheck, hist := hist s @ [Decremented]\<rparr>)
      | SRange (link # rest) \<Rightarrow>
          Some (if \<not> lookup (visited s) link \<and> \<not> isImageLink link \<and> isSameDomain url link
                then s\<lparr>visited := (visited s)(link \<mapsto> True),
                       n_left := n_left s + 1,
                       gs := gs s @ [GAcquire link],
                       sched := SRange rest,
                       hist := hist s @ [Marked link, Spawned link]\<rparr>
                else s\<lparr>sched := SRange rest\<rparr>)
      | SDone \<Rightarrow> None)"

definition resume :: "goroutine option \<Rightarrow> goroutine list" where
  "resume g = (case g of None \<Rightarrow> [] | Some h \<Rightarrow> [h])"

text \<open>One step of the program: the scheduling loop moves, or any one goroutine does.\<close>

inductive step :: "fetcher \<Rightarrow> string \<Rightarrow> state \<Rightarrow> state \<Rightarrow> bool" for F url where
  scheduler: "sstep url s = Some s' \<Longrightarrow> step F url s s'"
| goroutine: "gs s = xs @ g # ys \<Longrightarrow> gstep F s g = Some (g', t) \<Longrightarrow>
     step F url s (t\<lparr>gs := xs @ resume g' @ ys\<rparr>)"

inductive reachable :: "fetcher \<Rightarrow> string \<Rightarrow> state \<Rightarrow> bool" for F url where
  reach_init: "reachable F url (init url)"
| reach_step: "reachable F url s \<Longrightarrow> step F url s s' \<Longrightarrow> reachable F url s'"

subsection \<open>One schedule, to run the crawl\<close>

text \<open>
  The scheduling loop moves when it can; otherwise the first goroutine that is not blocked.
\<close>

fun first_ready :: "fetcher \<Rightarrow> state \<Rightarrow> goroutine list \<Rightarrow> goroutine list \<Rightarrow> state option" where
  "first_ready F s xs [] = None"
| "first_ready F s xs (g # ys) =
     (case gstep F s g of
        Some (g', t) \<Rightarrow> Some (t\<lparr>gs := xs @ resume g' @ ys\<rparr>)
      | None \<Rightarrow> first_ready F s (xs @ [g]) ys)"

definition next_state :: "fetcher \<Rightarrow> string \<Rightarrow> state \<Rightarrow> state option" where
  "next_state F url s =
     (case sstep url s of Some s' \<Rightarrow> Some s' | None \<Rightarrow> first_ready F s [] (gs s))"

fun run :: "fetcher \<Rightarrow> string \<Rightarrow> nat \<Rightarrow> state \<Rightarrow> state" where
  "run F url 0 s = s"
| "run F url (Suc k) s = (case next_state F url s of None \<Rightarrow> s | Some s' \<Rightarrow> run F url k s')"

text \<open>\<^verbatim>\<open>crawlDomain(url)\<close> with at most \<open>k\<close> steps: the sitemap, once the loop has ended.\<close>

definition crawlDomain :: "fetcher \<Rightarrow> string \<Rightarrow> nat \<Rightarrow> (string \<rightharpoonup> string list) option" where
  "crawlDomain F url k =
     (let s = run F url k (init url) in if sched s = SDone then Some (sitemap s) else None)"

section \<open>Notions used to state the properties\<close>

text \<open>
  The value \<^verbatim>\<open>getLinks(url)\<close> returns: the fetcher's links, or \<^verbatim>\<open>nil\<close> after an error. What
  the function does besides (the limiter, the printed error) is in \<open>gstep\<close>, stage by stage.
\<close>

definition getLinks :: "fetcher \<Rightarrow> string \<Rightarrow> string list" where
  "getLinks F url = (case F url of Inl err \<Rightarrow> [] | Inr links \<Rightarrow> links)"

text \<open>The test of the inner loop, apart from \<^verbatim>\<open>!visited[link]\<close>.\<close>

definition eligible :: "string \<Rightarrow> string \<Rightarrow> bool" where
  "eligible url link = (\<not> isImageLink link \<and> isSameDomain url link)"

text \<open>The URLs marked in \<^verbatim>\<open>visited\<close>.\<close>

definition discovered :: "state \<Rightarrow> string set" where
  "discovered s = {u. lookup (visited s) u}"

text \<open>
  The pages a crawl from \<open>url\<close> can get to: the seed when it passes the filters, and every
  link that passes them on a page already in the set.
\<close>

inductive_set crawlable :: "fetcher \<Rightarrow> string \<Rightarrow> string set" for F url where
  seed: "eligible url url \<Longrightarrow> url \<in> crawlable F url"
| link: "u \<in> crawlable F url \<Longrightarrow> l \<in> set (getLinks F u) \<Longrightarrow> eligible url l \<Longrightarrow>
     l \<in> crawlable F url"

text \<open>The page a worker is for (none for the seed goroutine), and how far the worker is.\<close>

fun glink :: "goroutine \<Rightarrow> string list" where
  "glink (GSeed u) = []"
| "glink (GAcquire u) = [u]"
| "glink (GGet u) = [u]"
| "glink (GRelease u r) = [u]"
| "glink (GLock u l) = [u]"
| "glink (GStore u l) = [u]"
| "glink (GUnlock u l) = [u]"
| "glink (GSend u l) = [u]"

fun stage :: "goroutine \<Rightarrow> nat" where
  "stage (GSeed u) = 6"
| "stage (GAcquire u) = 0"
| "stage (GGet u) = 1"
| "stage (GRelease u r) = 2"
| "stage (GLock u l) = 3"
| "stage (GStore u l) = 4"
| "stage (GUnlock u l) = 5"
| "stage (GSend u l) = 6"

definition live :: "goroutine list \<Rightarrow> string list" where
  "live xs = concat (map glink xs)"

text \<open>The pages whose worker has not yet reached stage \<open>k\<close>.\<close>

definition before :: "nat \<Rightarrow> goroutine list \<Rightarrow> string set" where
  "before k xs = set (live (filter (\<lambda>g. stage g < k) xs))"

text \<open>The list a goroutine is going to send on \<^verbatim>\<open>pages\<close>.\<close>

fun glist :: "fetcher \<Rightarrow> goroutine \<Rightarrow> string list" where
  "glist F (GSeed u) = [u]"
| "glist F (GAcquire u) = getLinks F u"
| "glist F (GGet u) = getLinks F u"
| "glist F (GRelease u r) = (case r of Inl err \<Rightarrow> [] | Inr links \<Rightarrow> links)"
| "glist F (GLock u l) = l"
| "glist F (GStore u l) = l"
| "glist F (GUnlock u l) = l"
| "glist F (GSend u l) = l"

text \<open>Between the send on \<^verbatim>\<open>counter\<close> and the receive from it: a fetch in flight.\<close>

fun in_flight :: "goroutine \<Rightarrow> bool" where
  "in_flight (GGet u) = True"
| "in_flight (GRelease u r) = True"
| "in_flight g = False"

fun in_critical :: "goroutine \<Rightarrow> bool" where
  "in_critical (GStore u l) = True"
| "in_critical (GUnlock u l) = True"
| "in_critical g = False"

text \<open>Counting in the history: workers started, lists handed to the scheduling loop.\<close>

fun is_spawn :: "event \<Rightarrow> bool" where
  "is_spawn (Spawned u) = True"
| "is_spawn e = False"

fun is_delivery :: "event \<Rightarrow> bool" where
  "is_delivery (Delivered u) = True"
| "is_delivery SeedDelivered = True"
| "is_delivery e = False"

fun is_acquire :: "event \<Rightarrow> bool" where
  "is_acquire (Acquired u) = True"
| "is_acquire e = False"

fun is_release :: "event \<Rightarrow> bool" where
  "is_release (Released u) = True"
| "is_release e = False"

fun is_seed :: "goroutine \<Rightarrow> bool" where
  "is_seed (GSeed u) = True"
| "is_seed g = False"

text \<open>The links still to visit in the inner loop.\<close>

fun rest_of :: "sched \<Rightarrow> string list" where
  "rest_of (SRange rest) = rest"
| "rest_of c = []"

fun in_range :: "sched \<Rightarrow> bool" where
  "in_range (SRange rest) = True"
| "in_range c = False"

text \<open>
  A bound on the steps still to come: what each live goroutine has left to do, and the
  scheduling loop for its message; what the loop has left of the current list; and the
  same for every page that may still be discovered.
\<close>

definition gcost :: "fetcher \<Rightarrow> goroutine \<Rightarrow> nat" where
  "gcost F g = length (glist F g) + (9 - stage g)"

fun scost :: "sched \<Rightarrow> nat" where
  "scost SCheck = 1"
| "scost SRecv = 0"
| "scost (SRange rest) = length rest + 2"
| "scost SDone = 0"

definition steps_left :: "fetcher \<Rightarrow> string \<Rightarrow> state \<Rightarrow> nat" where
  "steps_left F url s =
     (\<Sum>u \<in> crawlable F url - discovered s. length (getLinks F u) + 10)
     + sum_list (map (gcost F) (gs s)) + scost (sched s)"

text \<open>
  The words of the specification for \<^verbatim>\<open>isImageLink\<close>: the URL ends, whatever the case of
  its letters, in one of the extensions.
\<close>

definition image_extensions :: "string list" where
  "image_extensions = [''jpg'', ''png'', ''gif'', ''bmp'', ''tiff'']"

definition ends_in_image_extension :: "string \<Rightarrow> bool" where
  "ends_in_image_extension u =
     list_ex (\<lambda>e. suffix (CHR ''.'' # e) (map lower u)) image_extensions"

text \<open>The pattern after \<^verbatim>\<open>[^\s]+\<close> and before \<^verbatim>\<open>$\<close>, and matching up to the end of the text.\<close>

definition ext_tail :: regex where
  "ext_tail =
     Capture (Concat (Literal False ''.'')
        (Capture (Alternate (Literal True ''jpg'')
                 (Alternate (Literal True ''png'')
                 (Alternate (Literal True ''gif'')
                 (Alternate (Literal True ''bmp'') (Literal True ''tiff'')))))))"

definition full :: "regex \<Rightarrow> string \<Rightarrow> bool" where
  "full r s = (ends (Concat r EndText) s \<noteq> [])"

section \<open>Properties of the filters\<close>

subsection \<open>isSameDomain\<close>

lemma HasPrefix_prefix: "HasPrefix s pre \<longleftrightarrow> prefix pre s"
  by (auto simp: HasPrefix_def prefix_def) (metis append_eq_conv_conj)

text \<open>
  C5. \<^verbatim>\<open>isSameDomain(root, url)\<close> is true exactly when \<open>root\<close> is a literal prefix of \<open>url\<close>;
  so for the root \<^verbatim>\<open>http://golang.org\<close> the URL \<^verbatim>\<open>http://golang.org2/x\<close> counts as inside
  the domain, and the \<^verbatim>\<open>https\<close> URL of the same host as outside.
\<close>

theorem isSameDomain_literal_prefix:
  "(isSameDomain root url \<longleftrightarrow> prefix root url)
   \<and> isSameDomain ''http://golang.org'' ''http://golang.org2/x''
   \<and> \<not> isSameDomain ''http://golang.org'' ''https://golang.org/x''"
  by (simp add: isSameDomain_def HasPrefix_prefix)

subsection \<open>isImageLink\<close>

lemma set_iter_class:
  assumes f: "\<And>s. f s = (case s of [] \<Rightarrow> [] | c # t \<Rightarrow> if p c then [t] else [])"
  shows "set (iter f k s) =
     {t. \<exists>m. m \<noteq> [] \<and> length m \<le> k \<and> s = m @ t \<and> (\<forall>c\<in>set m. p c)}"
proof (induction k arbitrary: s)
  case 0
  then show ?case by simp
next
  case (Suc k)
  show ?case
  proof (cases s)
    case Nil
    then show ?thesis by (simp add: f)
  next
    case (Cons c cs)
    show ?thesis
    proof (cases "p c")
      case False
      have "\<And>m t. m \<noteq> [] \<Longrightarrow> c # cs = m @ t \<Longrightarrow> c \<in> set m"
        by (metis append_Cons list.exhaust list.inject list.set_intros(1))
      with False show ?thesis using Cons by (auto simp: f)
    next
      case True
      have "set (iter f (Suc k) s) = insert cs (set (iter f k cs))"
        using Cons True by (simp add: Let_def f)
      also have "\<dots> = {t. \<exists>m. m \<noteq> [] \<and> length m \<le> Suc k \<and> s = m @ t \<and> (\<forall>c\<in>set m. p c)}"
        (is "?L = ?R")
      proof (intro set_eqI iffI)
        fix t assume "t \<in> ?L"
        then consider "t = cs" | m where "m \<noteq> []" "length m \<le> k" "cs = m @ t" "\<forall>c\<in>set m. p c"
          unfolding Suc.IH by auto
        then show "t \<in> ?R"
        proof cases
          case 1
          then show ?thesis using Cons True by (auto intro!: exI[of _ "[c]"])
        next
          case 2
          then show ?thesis using Cons True by (auto intro!: exI[of _ "c # m"])
        qed
      next
        fix t assume "t \<in> ?R"
        then obtain m where m: "m \<noteq> []" "length m \<le> Suc k" "s = m @ t" "\<forall>c\<in>set m. p c"
          by auto
        then obtain m' where m': "m = c # m'" using Cons by (cases m) auto
        show "t \<in> ?L"
        proof (cases "m' = []")
          case True
          then show ?thesis using m m' Cons by simp
        next
          case False
          then show ?thesis unfolding Suc.IH using m m' Cons by auto
        qed
      qed
      finally show ?thesis .
    qed
  qed
qed

lemma ends_plus_class:
  "set (ends (Plus (CharClass True ws)) s) =
     {t. \<exists>m. m \<noteq> [] \<and> s = m @ t \<and> (\<forall>c\<in>set m. c \<notin> set ws)}"
proof -
  have "set (iter (ends (CharClass True ws)) (Suc (length s)) s) =
     {t. \<exists>m. m \<noteq> [] \<and> length m \<le> Suc (length s) \<and> s = m @ t \<and> (\<forall>c\<in>set m. c \<notin> set ws)}"
    by (rule set_iter_class) (simp split: list.splits)
  then show ?thesis by auto
qed

lemma lower_exts: "map lower ''jpg'' = ''jpg''" "map lower ''png'' = ''png''" "map lower ''gif'' = ''gif''"
  "map lower ''bmp'' = ''bmp''" "map lower ''tiff'' = ''tiff''"
  by (simp_all add: lower_def)

lemma full_simps:
  "full (Alternate a b) s \<longleftrightarrow> full a s \<or> full b s"
  "full (Capture r) s \<longleftrightarrow> full r s"
  "full (Literal True lit) s \<longleftrightarrow> map lower s = map lower lit"
  by (auto simp: full_def lit_eq_def dest: map_eq_imp_length_eq)

lemma full_dot: "full (Concat (Literal False [d]) r) s \<longleftrightarrow> (\<exists>e. s = d # e \<and> full r e)"
  by (cases s) (auto simp: full_def lit_eq_def)

lemma ends_ext_tail:
  "full ext_tail t \<longleftrightarrow> (\<exists>e. t = CHR ''.'' # e \<and> map lower e \<in> set image_extensions)"
  unfolding ext_tail_def full_simps full_dot lower_exts image_extensions_def by auto

lemma exp_tail: "exp = Capture (Concat (Plus (CharClass True whitespace)) (Concat ext_tail EndText))"
  by (simp add: exp_def ext_tail_def)

lemma ends_exp:
  "ends exp s \<noteq> [] \<longleftrightarrow>
     (\<exists>m e. m \<noteq> [] \<and> s = m @ CHR ''.'' # e \<and> (\<forall>c\<in>set m. c \<notin> set whitespace)
        \<and> map lower e \<in> set image_extensions)"
proof -
  have "ends exp s \<noteq> [] \<longleftrightarrow> (\<exists>t \<in> set (ends (Plus (CharClass True whitespace)) s). full ext_tail t)"
    unfolding exp_tail full_def by (auto simp del: ends.simps simp add: ends.simps(3,6))
  then show ?thesis unfolding ends_plus_class ends_ext_tail by blast
qed

lemma MatchString_drop:
  "MatchString re s \<longleftrightarrow> (\<exists>pre t. s = pre @ t \<and> ends re t \<noteq> [])"
proof
  assume "MatchString re s"
  then obtain i where "ends re (drop i s) \<noteq> []"
    unfolding MatchString_def list_ex_iff by blast
  then show "\<exists>pre t. s = pre @ t \<and> ends re t \<noteq> []"
    by (metis append_take_drop_id)
next
  assume "\<exists>pre t. s = pre @ t \<and> ends re t \<noteq> []"
  then obtain pre t where "s = pre @ t" "ends re t \<noteq> []" by blast
  then have "length pre \<in> set [0 ..< Suc (length s)]" "ends re (drop (length pre) s) \<noteq> []" by auto
  then show "MatchString re s"
    unfolding MatchString_def list_ex_iff by blast
qed


text \<open>
  C6, as the specification words it: \<^verbatim>\<open>isImageLink(u)\<close> is true exactly when \<open>u\<close> ends,
  whatever the case of its letters, in one of the extensions. The URL \<^verbatim>\<open>.jpg\<close> (which is
  all path) ends in the extension \<^verbatim>\<open>.jpg\<close>, and \<^verbatim>\<open>isImageLink\<close> is false there: the pattern
  asks for a character before the dot.
\<close>

theorem isImageLink_bare_extension:
  "\<not> (isImageLink ''.jpg'' \<longleftrightarrow> ends_in_image_extension ''.jpg'')"
proof -
  have "\<not> isImageLink ''.jpg''" by code_simp
  moreover have "ends_in_image_extension ''.jpg''" by code_simp
  ultimately show ?thesis by simp
qed

text \<open>
  The pattern is matched against the whole URL, not against its path: a query string after
  the extension hides it, and an extension at the end of the query string counts.
\<close>

lemma isImageLink_query_string:
  "\<not> isImageLink ''http://golang.org/gopher.jpg?v=2''
   \<and> isImageLink ''http://golang.org/page?img=gopher.jpg''"
  by code_simp

text \<open>
  C6, amended: \<^verbatim>\<open>isImageLink(u)\<close> is true exactly when the whole string \<open>u\<close> ends in a
  character other than white space (tab, newline, form feed, carriage return, space),
  a dot, and one of the extensions jpg, png, gif, bmp, tiff in any mix of upper and lower
  case.
\<close>

theorem isImageLink_iff:
  "isImageLink u \<longleftrightarrow>
     (\<exists>pre c e. u = pre @ c # CHR ''.'' # e \<and> c \<notin> set whitespace
        \<and> map lower e \<in> set image_extensions)"
proof
  assume "isImageLink u"
  then obtain pre m e where *: "u = pre @ m @ CHR ''.'' # e" "m \<noteq> []" "\<forall>c\<in>set m. c \<notin> set whitespace"
      "map lower e \<in> set image_extensions"
    unfolding isImageLink_def MatchString_drop ends_exp by (auto split: if_splits)
  then have "u = (pre @ butlast m) @ last m # CHR ''.'' # e" "last m \<notin> set whitespace"
    by auto
  with * show "\<exists>pre c e. u = pre @ c # CHR ''.'' # e \<and> c \<notin> set whitespace
        \<and> map lower e \<in> set image_extensions" by blast
next
  assume "\<exists>pre c e. u = pre @ c # CHR ''.'' # e \<and> c \<notin> set whitespace
        \<and> map lower e \<in> set image_extensions"
  then obtain pre c e where "u = pre @ [c] @ CHR ''.'' # e" "c \<notin> set whitespace"
        "map lower e \<in> set image_extensions" by auto
  then have "u = pre @ ([c] @ CHR ''.'' # e)" "ends exp ([c] @ CHR ''.'' # e) \<noteq> []"
    unfolding ends_exp by (simp, intro exI[of _ "[c]"] exI[of _ e]) simp
  then have "\<exists>pre t. u = pre @ t \<and> ends exp t \<noteq> []"
    by blast
  then show "isImageLink u" unfolding isImageLink_def MatchString_drop by simp
qed

section \<open>The steps of the program, case by case\<close>

lemma step_cases [consumes 1, case_names check_more check_done spawn skip decr seed acquire get
    release_err release_ok lock store unlock send]:
  assumes "step F url s s'"
  obtains
    "sched s = SCheck" "n_left s > 0" "s' = s\<lparr>sched := SRecv\<rparr>"
  | "sched s = SCheck" "\<not> n_left s > 0" "s' = s\<lparr>sched := SDone\<rparr>"
  | link rest where "sched s = SRange (link # rest)" "link \<notin> discovered s"
      "eligible url link"
      "s' = s\<lparr>visited := (visited s)(link \<mapsto> True), n_left := n_left s + 1,
               gs := gs s @ [GAcquire link], sched := SRange rest,
               hist := hist s @ [Marked link, Spawned link]\<rparr>"
  | link rest where "sched s = SRange (link # rest)"
      "link \<in> discovered s \<or> \<not> eligible url link"
      "s' = s\<lparr>sched := SRange rest\<rparr>"
  | "sched s = SRange []"
      "s' = s\<lparr>n_left := n_left s - 1, sched := SCheck, hist := hist s @ [Decremented]\<rparr>"
  | xs u ys where "gs s = xs @ GSeed u # ys" "sched s = SRecv"
      "s' = s\<lparr>sched := SRange [u], gs := xs @ ys, hist := hist s @ [SeedDelivered]\<rparr>"
  | xs u ys where "gs s = xs @ GAcquire u # ys" "counter s < counter_cap"
      "s' = s\<lparr>counter := counter s + 1, gs := xs @ GGet u # ys, hist := hist s @ [Acquired u]\<rparr>"
  | xs u ys where "gs s = xs @ GGet u # ys"
      "s' = s\<lparr>gs := xs @ GRelease u (F u) # ys, hist := hist s @ [Fetched u]\<rparr>"
  | xs u err ys where "gs s = xs @ GRelease u (Inl err) # ys" "counter s > 0"
      "s' = s\<lparr>counter := counter s - 1, gs := xs @ GLock u [] # ys,
               stdout := stdout s @ [err], hist := hist s @ [Released u]\<rparr>"
  | xs u links ys where "gs s = xs @ GRelease u (Inr links) # ys" "counter s > 0"
      "s' = s\<lparr>counter := counter s - 1, gs := xs @ GLock u links # ys,
               hist := hist s @ [Released u]\<rparr>"
  | xs u l ys where "gs s = xs @ GLock u l # ys" "\<not> mutex s"
      "s' = s\<lparr>mutex := True, gs := xs @ GStore u l # ys\<rparr>"
  | xs u l ys where "gs s = xs @ GStore u l # ys"
      "s' = s\<lparr>sitemap := (sitemap s)(u \<mapsto> l), gs := xs @ GUnlock u l # ys,
               hist := hist s @ [Stored u]\<rparr>"
  | xs u l ys where "gs s = xs @ GUnlock u l # ys"
      "s' = s\<lparr>mutex := False, gs := xs @ GSend u l # ys\<rparr>"
  | xs u l ys where "gs s = xs @ GSend u l # ys" "sched s = SRecv"
      "s' = s\<lparr>sched := SRange l, gs := xs @ ys, hist := hist s @ [Delivered u]\<rparr>"
  using assms
proof (cases rule: step.cases)
  case scheduler
  then show ?thesis
    using that(1-5)
    by (auto simp: sstep_def eligible_def discovered_def split: sched.splits list.splits if_splits)
next
  case (goroutine xs g ys g' t)
  then show ?thesis
    using that(6-14)
    by (cases g) (auto simp: resume_def split: if_splits sum.splits)
qed

section \<open>Invariants of the crawl\<close>

lemma live_simps [simp]:
  "live [] = []" "live (g # ys) = glink g @ live ys" "live (xs @ ys) = live xs @ live ys"
  by (simp_all add: live_def)

lemma before_simps [simp]:
  "before k [] = {}"
  "before k (g # ys) = (if stage g < k then set (glink g) else {}) \<union> before k ys"
  "before k (xs @ ys) = before k xs \<union> before k ys"
  by (auto simp: before_def)

lemma before_live: "u \<in> before k xs \<Longrightarrow> u \<in> set (live xs)"
  by (induction xs) (auto split: if_splits)

lemma discovered_simps [simp]:
  "discovered (s\<lparr>visited := (visited s)(l \<mapsto> True)\<rparr>) = insert l (discovered s)"
  "discovered (s\<lparr>sitemap := a\<rparr>) = discovered s"
  "discovered (s\<lparr>n_left := b\<rparr>) = discovered s"
  "discovered (s\<lparr>counter := c\<rparr>) = discovered s"
  "discovered (s\<lparr>mutex := d\<rparr>) = discovered s"
  "discovered (s\<lparr>sched := e\<rparr>) = discovered s"
  "discovered (s\<lparr>gs := f\<rparr>) = discovered s"
  "discovered (s\<lparr>stdout := g\<rparr>) = discovered s"
  "discovered (s\<lparr>hist := h\<rparr>) = discovered s"
  by (auto simp: discovered_def lookup_def)

lemma init_simps [simp]:
  "visited (init url) = Map.empty" "sitemap (init url) = Map.empty" "n_left (init url) = 1"
  "counter (init url) = 0" "mutex (init url) = False" "sched (init url) = SCheck"
  "gs (init url) = [GSeed url]" "stdout (init url) = []" "hist (init url) = []"
  "discovered (init url) = {}"
  by (simp_all add: discovered_def init_def lookup_def)

lemma count_inv:
  "reachable F url s \<Longrightarrow>
     n_left s = int (length (gs s)) + (if in_range (sched s) then 1 else 0)
     \<and> (sched s = SRecv \<longrightarrow> 0 < n_left s)
     \<and> (sched s = SDone \<longrightarrow> gs s = [])"
proof (induction rule: reachable.induct)
  case reach_init
  then show ?case by simp
next
  case (reach_step s s')
  from reach_step.hyps(2) reach_step.IH show ?case
    by (cases rule: step_cases) auto
qed

lemma limiter_inv:
  "reachable F url s \<Longrightarrow>
     counter s = length (filter in_flight (gs s)) \<and> counter s \<le> counter_cap"
proof (induction rule: reachable.induct)
  case reach_init
  then show ?case by simp
next
  case (reach_step s s')
  from reach_step.hyps(2) reach_step.IH show ?case
    by (cases rule: step_cases) auto
qed

lemma mutex_inv:
  "reachable F url s \<Longrightarrow> length (filter in_critical (gs s)) = (if mutex s then 1 else 0)"
proof (induction rule: reachable.induct)
  case reach_init
  then show ?case by simp
next
  case (reach_step s s')
  from reach_step.hyps(2) reach_step.IH show ?case
    by (cases rule: step_cases) (auto split: if_splits)
qed

lemma visited_inv:
  "reachable F url s \<Longrightarrow>
     (\<forall>u. visited s u = None \<or> visited s u = Some True)
     \<and> (\<forall>u \<in> discovered s. eligible url u)"
proof (induction rule: reachable.induct)
  case reach_init
  then show ?case by simp
next
  case (reach_step s s')
  from reach_step.hyps(2) reach_step.IH show ?case
    by (cases rule: step_cases) auto
qed

lemma workers_inv:
  "reachable F url s \<Longrightarrow>
     distinct (live (gs s)) \<and> set (live (gs s)) \<subseteq> discovered s
     \<and> (\<forall>g \<in> set (gs s). \<forall>u \<in> set (glink g). glist F g = getLinks F u)"
proof (induction rule: reachable.induct)
  case reach_init
  then show ?case by simp
next
  case (reach_step s s')
  from reach_step.hyps(2) reach_step.IH show ?case
    by (cases rule: step_cases) (auto simp: getLinks_def)
qed

lemma seed_inv: "reachable F url s \<Longrightarrow> GSeed u \<in> set (gs s) \<Longrightarrow> u = url"
proof (induction rule: reachable.induct)
  case reach_init
  then show ?case by simp
next
  case (reach_step s s')
  from reach_step.hyps(2) reach_step.IH reach_step.prems show ?case
    by (cases rule: step_cases) auto
qed

lemma answer_inv: "reachable F url s \<Longrightarrow> GRelease u r \<in> set (gs s) \<Longrightarrow> r = F u"
proof (induction rule: reachable.induct)
  case reach_init
  then show ?case by simp
next
  case (reach_step s s')
  from reach_step.hyps(2) reach_step.IH reach_step.prems show ?case
    by (cases rule: step_cases) auto
qed

lemma sitemap_inv:
  "reachable F url s \<Longrightarrow>
     sitemap s u = (if u \<in> discovered s \<and> u \<notin> before 5 (gs s) then Some (getLinks F u) else None)"
proof (induction rule: reachable.induct)
  case reach_init
  then show ?case by simp
next
  case (reach_step s s')
  note w = workers_inv[OF reach_step.hyps(1)]
  from reach_step.hyps(2) reach_step.IH w show ?case
    by (cases rule: step_cases) (auto dest: before_live split: if_splits)
qed

lemma reach_inv:
  "reachable F url s \<Longrightarrow>
     discovered s \<subseteq> crawlable F url
     \<and> (\<forall>l \<in> set (rest_of (sched s)). eligible url l \<longrightarrow> l \<in> crawlable F url)"
proof (induction rule: reachable.induct)
  case reach_init
  then show ?case by simp
next
  case (reach_step s s')
  note w = workers_inv[OF reach_step.hyps(1)]
  from reach_step.hyps(2) reach_step.IH show ?case
  proof (cases rule: step_cases)
    case (seed xs u ys)
    then have "u = url" using seed_inv[OF reach_step.hyps(1), of u] by simp
    with seed reach_step.IH show ?thesis by (auto intro: crawlable.seed)
  next
    case (send xs u l ys)
    then have "l = getLinks F u" "u \<in> crawlable F url"
      using w reach_step.IH by auto
    with send reach_step.IH show ?thesis by (auto intro: crawlable.link)
  qed auto
qed

lemma closed_inv:
  "reachable F url s \<Longrightarrow>
     (eligible url url \<longrightarrow>
        url \<in> discovered s \<or> GSeed url \<in> set (gs s) \<or> url \<in> set (rest_of (sched s)))
     \<and> (\<forall>u \<in> discovered s. \<forall>l \<in> set (getLinks F u). eligible url l \<longrightarrow>
           l \<in> discovered s \<or> u \<in> set (live (gs s)) \<or> l \<in> set (rest_of (sched s)))"
proof (induction rule: reachable.induct)
  case reach_init
  then show ?case by simp
next
  case (reach_step s s')
  note w = workers_inv[OF reach_step.hyps(1)]
  note c = count_inv[OF reach_step.hyps(1)]
  from reach_step.hyps(2) show ?case
  proof (cases rule: step_cases)
    case (seed xs u ys)
    then have "u = url" using seed_inv[OF reach_step.hyps(1), of u] by simp
    with seed reach_step.IH show ?thesis by auto
  next
    case (send xs u l ys)
    then have "l = getLinks F u"
      using w by auto
    with send reach_step.IH show ?thesis by auto
  next
    case (spawn link rest)
    with reach_step.IH show ?thesis by auto
  next
    case (skip link rest)
    with reach_step.IH show ?thesis by auto
  qed (use reach_step.IH in auto)
qed

lemma hist_marked:
  "reachable F url s \<Longrightarrow>
     count_list (hist s) (Marked u) = (if u \<in> discovered s then 1 else 0)
   \<and> count_list (hist s) (Spawned u) = (if u \<in> discovered s then 1 else 0)"
proof (induction rule: reachable.induct)
  case reach_init
  then show ?case by simp
next
  case (reach_step s s')
  from reach_step.hyps(2) reach_step.IH show ?case
    by (cases rule: step_cases) auto
qed

lemma hist_acquired:
  "reachable F url s \<Longrightarrow>
     count_list (hist s) (Acquired u) = (if u \<in> discovered s \<and> u \<notin> before 1 (gs s) then 1 else 0)"
proof (induction rule: reachable.induct)
  case reach_init
  then show ?case by simp
next
  case (reach_step s s')
  note w = workers_inv[OF reach_step.hyps(1)]
  from reach_step.hyps(2) reach_step.IH w show ?case
    by (cases rule: step_cases) (auto dest: before_live split: if_splits)
qed

lemma hist_fetched:
  "reachable F url s \<Longrightarrow>
     count_list (hist s) (Fetched u) = (if u \<in> discovered s \<and> u \<notin> before 2 (gs s) then 1 else 0)"
proof (induction rule: reachable.induct)
  case reach_init
  then show ?case by simp
next
  case (reach_step s s')
  note w = workers_inv[OF reach_step.hyps(1)]
  from reach_step.hyps(2) reach_step.IH w show ?case
    by (cases rule: step_cases) (auto dest: before_live split: if_splits)
qed

lemma hist_released:
  "reachable F url s \<Longrightarrow>
     count_list (hist s) (Released u) = (if u \<in> discovered s \<and> u \<notin> before 3 (gs s) then 1 else 0)"
proof (induction rule: reachable.induct)
  case reach_init
  then show ?case by simp
next
  case (reach_step s s')
  note w = workers_inv[OF reach_step.hyps(1)]
  from reach_step.hyps(2) reach_step.IH w show ?case
    by (cases rule: step_cases) (auto dest: before_live split: if_splits)
qed

lemma hist_stored:
  "reachable F url s \<Longrightarrow>
     count_list (hist s) (Stored u) = (if u \<in> discovered s \<and> u \<notin> before 5 (gs s) then 1 else 0)"
proof (induction rule: reachable.induct)
  case reach_init
  then show ?case by simp
next
  case (reach_step s s')
  note w = workers_inv[OF reach_step.hyps(1)]
  from reach_step.hyps(2) reach_step.IH w show ?case
    by (cases rule: step_cases) (auto dest: before_live split: if_splits)
qed

lemma hist_delivered:
  "reachable F url s \<Longrightarrow>
     count_list (hist s) (Delivered u) = (if u \<in> discovered s \<and> u \<notin> set (live (gs s)) then 1 else 0)"
proof (induction rule: reachable.induct)
  case reach_init
  then show ?case by simp
next
  case (reach_step s s')
  note w = workers_inv[OF reach_step.hyps(1)]
  from reach_step.hyps(2) reach_step.IH w show ?case
    by (cases rule: step_cases) (auto dest: before_live split: if_splits)
qed

lemma slots_inv:
  "reachable F url s \<Longrightarrow>
     counter s + length (filter is_release (hist s)) = length (filter is_acquire (hist s))"
proof (induction rule: reachable.induct)
  case reach_init
  then show ?case by simp
next
  case (reach_step s s')
  from reach_step.hyps(2) reach_step.IH show ?case
    by (cases rule: step_cases) auto
qed

lemma seed_hist_inv:
  "reachable F url s \<Longrightarrow>
     count_list (hist s) SeedDelivered + length (filter is_seed (gs s)) = 1"
proof (induction rule: reachable.induct)
  case reach_init
  then show ?case by simp
next
  case (reach_step s s')
  from reach_step.hyps(2) reach_step.IH show ?case
    by (cases rule: step_cases) auto
qed

lemma tally_inv:
  "reachable F url s \<Longrightarrow>
     n_left s = 1 + int (length (filter is_spawn (hist s))) - int (count_list (hist s) Decremented)
   \<and> count_list (hist s) Decremented + (if in_range (sched s) then 1 else 0)
       = length (filter is_delivery (hist s))"
proof (induction rule: reachable.induct)
  case reach_init
  then show ?case by simp
next
  case (reach_step s s')
  from reach_step.hyps(2) reach_step.IH show ?case
    by (cases rule: step_cases) auto
qed

lemma stdout_inv:
  "reachable F url s \<Longrightarrow>
     err \<in> set (stdout s) \<longleftrightarrow> (\<exists>u. u \<in> discovered s \<and> u \<notin> before 3 (gs s) \<and> F u = Inl err)"
proof (induction rule: reachable.induct)
  case reach_init
  then show ?case by simp
next
  case (reach_step s s')
  note w = workers_inv[OF reach_step.hyps(1)]
  note a = answer_inv[OF reach_step.hyps(1)]
  from reach_step.hyps(2) show ?case
  proof (cases rule: step_cases)
    case (release_err xs u e ys)
    then have "F u = Inl e" using a[of u "Inl e"] by simp
    with release_err reach_step.IH w show ?thesis
      by (auto dest: before_live)
  next
    case (release_ok xs u links ys)
    then have "F u = Inr links" using a[of u "Inr links"] by simp
    with release_ok reach_step.IH w show ?thesis
      by (auto dest: before_live)
  qed (use reach_step.IH w in \<open>auto dest: before_live\<close>)
qed

section \<open>Progress and termination\<close>

lemma first_ready_step:
  "first_ready F s xs ys = Some s' \<Longrightarrow> gs s = xs @ ys \<Longrightarrow> step F url s s'"
proof (induction ys arbitrary: xs)
  case Nil
  then show ?case by simp
next
  case (Cons g ys)
  show ?case
  proof (cases "gstep F s g")
    case None
    with Cons show ?thesis by simp
  next
    case (Some p)
    obtain g' t where p: "p = (g', t)" by (cases p)
    with Some Cons.prems have "s' = t\<lparr>gs := xs @ resume g' @ ys\<rparr>" by simp
    with Some p Cons.prems(2) show ?thesis by (auto intro: step.goroutine)
  qed
qed

lemma first_ready_None:
  "first_ready F s xs ys = None \<longleftrightarrow> (\<forall>g \<in> set ys. gstep F s g = None)"
  by (induction ys arbitrary: xs) (auto split: option.splits)

lemma next_state_step: "next_state F url s = Some s' \<Longrightarrow> step F url s s'"
  unfolding next_state_def
  by (auto split: option.splits intro: step.scheduler first_ready_step)

lemma step_next_state: "step F url s s' \<Longrightarrow> next_state F url s \<noteq> None"
proof (induction rule: step.induct)
  case (scheduler s s')
  then show ?case by (simp add: next_state_def)
next
  case (goroutine s xs g ys g' t)
  then have "first_ready F s [] (gs s) \<noteq> None"
    unfolding first_ready_None by auto
  then show ?case by (auto simp: next_state_def split: option.splits)
qed

lemma filter_nonempty: "0 < length (filter P xs) \<Longrightarrow> \<exists>x \<in> set xs. P x"
  by (induction xs) (auto split: if_splits)

lemma some_goroutine_ready:
  assumes r: "reachable F url s" and recv: "sched s = SRecv"
  shows "\<exists>g \<in> set (gs s). gstep F s g \<noteq> None"
proof -
  note c = count_inv[OF r] and l = limiter_inv[OF r] and m = mutex_inv[OF r]
  from c recv have "gs s \<noteq> []" by auto
  then obtain g where g: "g \<in> set (gs s)" by (cases "gs s") auto
  have flight: "\<And>h. h \<in> set (gs s) \<Longrightarrow> in_flight h \<Longrightarrow> gstep F s h \<noteq> None"
  proof -
    fix h assume h: "h \<in> set (gs s)" "in_flight h"
    then have "filter in_flight (gs s) \<noteq> []" by (auto simp: filter_empty_conv)
    with l have pos: "0 < counter s" by auto
    show "gstep F s h \<noteq> None"
      by (cases h) (use h(2) pos in \<open>auto split: sum.splits\<close>)
  qed
  have crit: "\<And>h. in_critical h \<Longrightarrow> gstep F s h \<noteq> None"
    subgoal for h by (cases h) auto
    done
  have ready: "gstep F s g \<noteq> None \<Longrightarrow> ?thesis" using g by blast
  show ?thesis
  proof (cases g)
    case (GSeed u)
    with recv show ?thesis by (intro ready) simp
  next
    case (GAcquire u)
    show ?thesis
    proof (cases "counter s < counter_cap")
      case True
      with GAcquire show ?thesis by (intro ready) simp
    next
      case False
      have "0 < counter_cap" by (simp add: counter_cap_def)
      with False have pos: "0 < counter s" by linarith
      from l have eq: "counter s = length (filter in_flight (gs s))" by (rule conjunct1)
      have "0 < length (filter in_flight (gs s))" using pos unfolding eq .
      from filter_nonempty[OF this] obtain h where "h \<in> set (gs s)" "in_flight h" ..
      then show ?thesis using flight by blast
    qed
  next
    case (GGet u)
    then show ?thesis by (intro ready) simp
  next
    case (GRelease u r)
    with g flight[of g] show ?thesis by (intro ready) simp
  next
    case (GLock u li)
    show ?thesis
    proof (cases "mutex s")
      case False
      with GLock show ?thesis by (intro ready) simp
    next
      case True
      with m have "0 < length (filter in_critical (gs s))" by simp
      from filter_nonempty[OF this] obtain h where "h \<in> set (gs s)" "in_critical h" ..
      then show ?thesis using crit by blast
    qed
  next
    case (GStore u li)
    then show ?thesis by (intro ready) simp
  next
    case (GUnlock u li)
    then show ?thesis by (intro ready) simp
  next
    case (GSend u li)
    with recv show ?thesis by (intro ready) simp
  qed
qed

lemma progress:
  assumes r: "reachable F url s" and nd: "sched s \<noteq> SDone"
  shows "next_state F url s \<noteq> None"
proof (cases "sched s")
  case SRecv
  from some_goroutine_ready[OF r SRecv] have "first_ready F s [] (gs s) \<noteq> None"
    unfolding first_ready_None by simp
  then show ?thesis by (auto simp: next_state_def split: option.splits)
next
  case SCheck
  then show ?thesis by (simp add: next_state_def sstep_def)
next
  case (SRange rest)
  then show ?thesis by (cases rest) (simp_all add: next_state_def sstep_def)
next
  case SDone
  with nd show ?thesis by simp
qed

lemma done_stuck:
  assumes r: "reachable F url s" and d: "sched s = SDone"
  shows "\<not> step F url s s'"
proof
  assume "step F url s s'"
  then show False
    using count_inv[OF r] d by (cases rule: step_cases) auto
qed

lemma sum_remove_nat:
  fixes f :: "'a \<Rightarrow> nat"
  assumes "finite A" "x \<in> A" "x \<notin> D"
  shows "sum f (A - D) = f x + sum f (A - insert x D)"
proof -
  have "A - insert x D = (A - D) - {x}" by auto
  moreover have "finite (A - D)" "x \<in> A - D" using assms by auto
  ultimately show ?thesis by (simp add: sum.remove)
qed

lemma steps_left_decreases:
  assumes fin: "finite (crawlable F url)" and r: "reachable F url s" and st: "step F url s s'"
  shows "steps_left F url s' < steps_left F url s"
  using st
proof (cases rule: step_cases)
  case (spawn link rest)
  with reach_inv[OF r] have "link \<in> crawlable F url" by auto
  from sum_remove_nat[OF fin this spawn(2), of "\<lambda>u. length (getLinks F u) + 10"]
  show ?thesis using spawn by (simp add: steps_left_def gcost_def)
qed (auto simp: steps_left_def gcost_def getLinks_def)

lemma run_terminates:
  assumes fin: "finite (crawlable F url)"
  shows "reachable F url s \<Longrightarrow> steps_left F url s \<le> k \<Longrightarrow> sched (run F url k s) = SDone"
proof (induction k arbitrary: s)
  case 0
  show ?case
  proof (rule ccontr)
    assume "sched (run F url 0 s) \<noteq> SDone"
    then have "sched s \<noteq> SDone" by simp
    from progress[OF "0.prems"(1) this] obtain s' where "next_state F url s = Some s'" by auto
    from steps_left_decreases[OF fin "0.prems"(1) next_state_step[OF this]] "0.prems"(2)
    show False by simp
  qed
next
  case (Suc k)
  show ?case
  proof (cases "next_state F url s")
    case None
    with progress[OF Suc.prems(1)] show ?thesis by auto
  next
    case (Some s')
    then have st: "step F url s s'" by (rule next_state_step)
    from steps_left_decreases[OF fin Suc.prems(1) st] Suc.prems(2)
    have "steps_left F url s' \<le> k" by simp
    from Suc.IH[OF reachable.reach_step[OF Suc.prems(1) st] this] Some show ?thesis by simp
  qed
qed

lemma run_reachable: "reachable F url s \<Longrightarrow> reachable F url (run F url k s)"
proof (induction k arbitrary: s)
  case 0
  then show ?case by simp
next
  case (Suc k)
  then show ?case
    by (auto split: option.splits intro: reachable.reach_step next_state_step)
qed

section \<open>The state of a completed crawl\<close>

lemma final_closed:
  assumes r: "reachable F url s" and d: "sched s = SDone"
  shows "crawlable F url \<subseteq> discovered s"
proof
  fix u assume "u \<in> crawlable F url"
  then show "u \<in> discovered s"
  proof (induction rule: crawlable.induct)
    case seed
    with closed_inv[OF r] count_inv[OF r] d show ?case by simp
  next
    case (link u l)
    with closed_inv[OF r] count_inv[OF r] d show ?case by simp
  qed
qed

lemma final_discovered:
  assumes r: "reachable F url s" and d: "sched s = SDone"
  shows "discovered s = crawlable F url"
  using final_closed[OF r d] reach_inv[OF r] by blast

lemma final_sitemap:
  assumes r: "reachable F url s" and d: "sched s = SDone"
  shows "sitemap s u = (if u \<in> crawlable F url then Some (getLinks F u) else None)"
  using sitemap_inv[OF r, of u] final_discovered[OF r d] count_inv[OF r] d by simp

lemma n_left_nonneg: "reachable F url s \<Longrightarrow> 0 \<le> n_left s"
  using count_inv[of F url s] by simp

lemma exit_step:
  assumes r: "reachable F url s" and st: "step F url s s'"
  shows "sched s' = SDone \<longleftrightarrow> sched s = SCheck \<and> n_left s = 0"
  using st
proof (cases rule: step_cases)
  case check_done
  with n_left_nonneg[OF r] show ?thesis by simp
qed (use count_inv[OF r] in auto)

lemma sitemap_stable:
  assumes r: "reachable F url s" and st: "step F url s s'" and m: "sitemap s u = Some l"
  shows "sitemap s' u = Some l"
  using st
proof (cases rule: step_cases)
  case (store xs v li ys)
  with sitemap_inv[OF r, of u] m have "u \<noteq> v" by (auto split: if_splits)
  with store m show ?thesis by simp
qed (use m in auto)

lemma discovered_mono:
  assumes st: "step F url s s'" and m: "u \<in> discovered s"
  shows "u \<in> discovered s'"
  using st by (cases rule: step_cases) (use m in auto)

lemma crawl_completes:
  assumes fin: "finite (crawlable F url)"
  shows "crawlDomain F url (steps_left F url (init url)) =
     Some (\<lambda>u. if u \<in> crawlable F url then Some (getLinks F u) else None)"
proof -
  let ?s = "run F url (steps_left F url (init url)) (init url)"
  have r: "reachable F url ?s" by (rule run_reachable) (rule reachable.reach_init)
  have d: "sched ?s = SDone"
    by (rule run_terminates[OF fin reachable.reach_init]) simp
  have "sitemap ?s = (\<lambda>u. if u \<in> crawlable F url then Some (getLinks F u) else None)"
    using final_sitemap[OF r d] by auto
  with d show ?thesis by (simp add: crawlDomain_def Let_def)
qed

section \<open>The test table\<close>

lemma crawlable_four:
  assumes er: "eligible r r" "eligible r a" "eligible r b" "eligible r t"
    and ne: "\<not> eligible r c" "\<not> eligible r d" "\<not> eligible r e"
    and links: "getLinks F r = [a, b, c, d]" "getLinks F a = [t, c, e]"
      "getLinks F b = [r]" "getLinks F t = [r]"
  shows "crawlable F r = {r, a, b, t}"
proof
  show "crawlable F r \<subseteq> {r, a, b, t}"
  proof
    fix u assume "u \<in> crawlable F r"
    then show "u \<in> {r, a, b, t}"
    proof (induction rule: crawlable.induct)
      case seed
      show ?case by simp
    next
      case (link u l)
      then show ?case using ne links by auto
    qed
  qed
  have r: "r \<in> crawlable F r" by (rule crawlable.seed) (rule er)
  have a: "a \<in> crawlable F r" by (rule crawlable.link[OF r]) (simp_all add: links er)
  have b: "b \<in> crawlable F r" by (rule crawlable.link[OF r]) (simp_all add: links er)
  have t: "t \<in> crawlable F r" by (rule crawlable.link[OF a]) (simp_all add: links er)
  from r a b t show "{r, a, b, t} \<subseteq> crawlable F r" by simp
qed

lemma crawlable_failing_seed:
  assumes "eligible r r" "getLinks F r = []"
  shows "crawlable F r = {r}"
proof
  show "crawlable F r \<subseteq> {r}"
  proof
    fix u assume "u \<in> crawlable F r"
    then show "u \<in> {r}"
      by (induction rule: crawlable.induct) (use assms in auto)
  qed
  show "{r} \<subseteq> crawlable F r" using crawlable.seed[OF assms(1)] by simp
qed

lemma crawlable_ineligible_seed:
  assumes "\<not> eligible r r"
  shows "crawlable F r = {}"
proof -
  have "u \<in> crawlable F r \<Longrightarrow> False" for u
    by (induction rule: crawlable.induct) (use assms in auto)
  then show ?thesis by blast
qed

lemma table_sitemap:
  assumes "set (map fst T) = crawlable (testFetcher T) r"
  shows "(\<lambda>u. if u \<in> crawlable (testFetcher T) r then Some (getLinks (testFetcher T) u) else None)
     = map_of T"
proof
  fix u
  show "(if u \<in> crawlable (testFetcher T) r then Some (getLinks (testFetcher T) u) else None)
     = map_of T u"
  proof (cases "map_of T u")
    case None
    then have "u \<notin> set (map fst T)" by (simp add: map_of_eq_None_iff)
    with assms None show ?thesis by simp
  next
    case (Some l)
    then have "u \<in> set (map fst T)" by (metis map_of_eq_None_iff option.distinct(1) set_map)
    with assms Some show ?thesis by (simp add: getLinks_def testFetcher_def)
  qed
qed

lemma fixture_eligible:
  "eligible ''http://golang.org'' ''http://golang.org''"
  "eligible ''http://golang.org'' ''http://golang.org/test.html''"
  "eligible ''http://golang.org'' ''http://golang.org/test2.html''"
  "eligible ''http://golang.org'' ''http://golang.org/testing.html''"
  "\<not> eligible ''http://golang.org'' ''http://golang.org/images/gopher.jpg''"
  "\<not> eligible ''http://golang.org'' ''http://goweeklynews.com''"
  "\<not> eligible ''http://golang.org'' ''http://linkedin.com/golang''"
  by code_simp+

lemma fixture_links:
  "getLinks (testFetcher tester) ''http://golang.org'' =
     [''http://golang.org/test.html'', ''http://golang.org/test2.html'',
      ''http://golang.org/images/gopher.jpg'', ''http://goweeklynews.com'']"
  "getLinks (testFetcher tester) ''http://golang.org/test.html'' =
     [''http://golang.org/testing.html'', ''http://golang.org/images/gopher.jpg'',
      ''http://linkedin.com/golang'']"
  "getLinks (testFetcher tester) ''http://golang.org/test2.html'' = [''http://golang.org'']"
  "getLinks (testFetcher tester) ''http://golang.org/testing.html'' = [''http://golang.org'']"
  by code_simp+

lemma fixture_crawlable:
  "crawlable (testFetcher tester) ''http://golang.org'' =
     {''http://golang.org'', ''http://golang.org/test.html'',
      ''http://golang.org/test2.html'', ''http://golang.org/testing.html''}"
  by (rule crawlable_four[OF fixture_eligible fixture_links])

lemma fixture_keys:
  "set (map fst tester) =
     {''http://golang.org'', ''http://golang.org/test.html'',
      ''http://golang.org/test2.html'', ''http://golang.org/testing.html''}"
  unfolding tester_def list.map fst_conv list.set ..

lemma fixture_distinct:
  "distinct [''http://golang.org'', ''http://golang.org/test.html'',
      ''http://golang.org/test2.html'', ''http://golang.org/testing.html'']"
  by code_simp

lemma fixture_run_done:
  "sched (run (testFetcher tester) ''http://golang.org'' 50 (init ''http://golang.org'')) = SDone"
  by code_simp

lemma failing_seed_done:
  "sched (run (testFetcher tester) ''http://goweeklynews.com'' 20 (init ''http://goweeklynews.com'')) = SDone"
  by code_simp

lemma image_seed_done:
  "sched (run (testFetcher tester) ''http://golang.org/images/gopher.jpg'' 10
      (init ''http://golang.org/images/gopher.jpg'')) = SDone"
  by code_simp

section \<open>Properties of the crawl\<close>

lemma final_dom:
  assumes r: "reachable F url s" and d: "sched s = SDone"
  shows "dom (sitemap s) = crawlable F url"
  using final_sitemap[OF r d] by (auto simp: dom_def)

lemma marked_discovered:
  assumes r: "reachable F url s"
  shows "{u. Marked u \<in> set (hist s)} = discovered s"
proof -
  have "Marked u \<in> set (hist s) \<longleftrightarrow> u \<in> discovered s" for u
    using hist_marked[OF r, of u] count_list_0_iff[of "hist s" "Marked u"]
    by (auto split: if_splits)
  then show ?thesis by blast
qed

lemma fixture_reachable:
  "reachable (testFetcher tester) ''http://golang.org''
     (run (testFetcher tester) ''http://golang.org'' 50 (init ''http://golang.org''))"
  by (rule run_reachable) (rule reachable.reach_init)

lemma fixture_finite: "finite (crawlable (testFetcher tester) ''http://golang.org'')"
  unfolding fixture_crawlable by (intro finite.insertI finite.emptyI)

lemma fixture_seed_crawlable:
  "''http://golang.org'' \<in> crawlable (testFetcher tester) ''http://golang.org''"
  by (rule crawlable.seed) (rule fixture_eligible)

text \<open>
  A fetcher that presents finitely many links in all presents a finite set of pages to
  crawl.
\<close>

lemma finite_graph_crawlable:
  assumes "finite (\<Union>u. set (getLinks F u))"
  shows "finite (crawlable F url)"
proof (rule finite_subset)
  show "crawlable F url \<subseteq> insert url (\<Union>u. set (getLinks F u))"
  proof
    fix v assume "v \<in> crawlable F url"
    then show "v \<in> insert url (\<Union>u. set (getLinks F u))"
      by (induction rule: crawlable.induct) auto
  qed
  show "finite (insert url (\<Union>u. set (getLinks F u)))" using assms by simp
qed

text \<open>
  C1. For every finite link graph (it is enough that the crawl can get to finitely many
  pages), and a fetcher whose every call returns, \<^verbatim>\<open>crawlDomain\<close> terminates. The count \<^verbatim>\<open>n\<close> starts at 1; it is 1 plus the workers spawned
  minus the decrements, and there is one decrement for each list received (the one for the
  list being visited is still to come); a step leaves the loop exactly when the test finds
  the count at 0; every step lowers a bound on the steps left, some step is possible until the
  loop has ended and none after; when it has ended, the count is 0, no goroutine is left,
  every spawned worker has delivered its list, and one schedule run that many steps returns
  the sitemap.
\<close>

theorem crawl_terminates:
  assumes fin: "finite (crawlable F url)" and r: "reachable F url s"
  shows "n_left (init url) = 1
    \<and> n_left s = 1 + int (length (filter is_spawn (hist s))) - int (count_list (hist s) Decremented)
    \<and> count_list (hist s) Decremented + (if in_range (sched s) then 1 else 0)
        = length (filter is_delivery (hist s))
    \<and> (\<forall>s'. step F url s s' \<longrightarrow> (sched s' = SDone \<longleftrightarrow> sched s = SCheck \<and> n_left s = 0))
    \<and> (\<forall>s'. step F url s s' \<longrightarrow> steps_left F url s' < steps_left F url s)
    \<and> (sched s \<noteq> SDone \<longrightarrow> (\<exists>s'. step F url s s'))
    \<and> (sched s = SDone \<longrightarrow>
          (\<forall>s'. \<not> step F url s s') \<and> n_left s = 0 \<and> gs s = []
          \<and> (\<forall>u. count_list (hist s) (Delivered u) = count_list (hist s) (Spawned u))
          \<and> length (filter is_delivery (hist s)) = 1 + length (filter is_spawn (hist s)))
    \<and> (\<exists>m. crawlDomain F url (steps_left F url (init url)) = Some m)"
proof -
  note t = tally_inv[OF r]
  have a: "\<forall>s'. step F url s s' \<longrightarrow> (sched s' = SDone \<longleftrightarrow> sched s = SCheck \<and> n_left s = 0)"
    using exit_step[OF r] by blast
  have b: "\<forall>s'. step F url s s' \<longrightarrow> steps_left F url s' < steps_left F url s"
    using steps_left_decreases[OF fin r] by blast
  have c: "sched s \<noteq> SDone \<longrightarrow> (\<exists>s'. step F url s s')"
  proof
    assume "sched s \<noteq> SDone"
    from progress[OF r this] obtain s' where "next_state F url s = Some s'" by auto
    then show "\<exists>s'. step F url s s'" using next_state_step by blast
  qed
  have d: "sched s = SDone \<longrightarrow>
          (\<forall>s'. \<not> step F url s s') \<and> n_left s = 0 \<and> gs s = []
          \<and> (\<forall>u. count_list (hist s) (Delivered u) = count_list (hist s) (Spawned u))
          \<and> length (filter is_delivery (hist s)) = 1 + length (filter is_spawn (hist s))"
  proof
    assume d: "sched s = SDone"
    with count_inv[OF r] have g: "gs s = []" and n: "n_left s = 0" by auto
    have "count_list (hist s) (Delivered u) = count_list (hist s) (Spawned u)" for u
      using hist_delivered[OF r, of u] hist_marked[OF r, of u] g by simp
    moreover have "length (filter is_delivery (hist s)) = 1 + length (filter is_spawn (hist s))"
      using t n d by simp
    ultimately show "(\<forall>s'. \<not> step F url s s') \<and> n_left s = 0 \<and> gs s = []
          \<and> (\<forall>u. count_list (hist s) (Delivered u) = count_list (hist s) (Spawned u))
          \<and> length (filter is_delivery (hist s)) = 1 + length (filter is_spawn (hist s))"
      using done_stuck[OF r d] g n by blast
  qed
  have e: "\<exists>m. crawlDomain F url (steps_left F url (init url)) = Some m"
    using crawl_completes[OF fin] by blast
  have i: "n_left (init url) = 1" by simp
  from i t a b c d e show ?thesis by blast
qed

theorem crawl_terminates_witness:
  "finite (crawlable (testFetcher tester) ''http://golang.org'')
   \<and> reachable (testFetcher tester) ''http://golang.org''
       (run (testFetcher tester) ''http://golang.org'' 50 (init ''http://golang.org''))
   \<and> sched (run (testFetcher tester) ''http://golang.org'' 50 (init ''http://golang.org'')) = SDone
   \<and> n_left (run (testFetcher tester) ''http://golang.org'' 50 (init ''http://golang.org'')) = 0
   \<and> gs (run (testFetcher tester) ''http://golang.org'' 50 (init ''http://golang.org'')) = []"
proof -
  have gen: "\<And>F url s. finite (crawlable F url) \<Longrightarrow> reachable F url s \<Longrightarrow> sched s = SDone
      \<Longrightarrow> n_left s = 0 \<and> gs s = []"
    using crawl_terminates by blast
  note g = gen[OF fixture_finite fixture_reachable fixture_run_done]
  show ?thesis
    by (intro conjI fixture_finite fixture_reachable fixture_run_done g[THEN conjunct1]
        g[THEN conjunct2])
qed

text \<open>
  C2. Every key of the sitemap (at any moment of a crawl, so also when it has completed)
  has passed the filters: it is not an image URL and it is inside the seed's domain. Its
  value is the list \<^verbatim>\<open>getLinks\<close> returned, unfiltered, so image and external URLs appear in
  values only.
\<close>

theorem sitemap_keys_eligible:
  assumes r: "reachable F url s" and m: "sitemap s u = Some l"
  shows "\<not> isImageLink u \<and> isSameDomain url u \<and> l = getLinks F u"
proof -
  from sitemap_inv[OF r, of u] m have "u \<in> discovered s" "l = getLinks F u"
    by (auto split: if_splits)
  with visited_inv[OF r] show ?thesis by (auto simp: eligible_def)
qed

theorem sitemap_keys_eligible_witness:
  "reachable (testFetcher tester) ''http://golang.org''
       (run (testFetcher tester) ''http://golang.org'' 50 (init ''http://golang.org''))
   \<and> sitemap (run (testFetcher tester) ''http://golang.org'' 50 (init ''http://golang.org''))
        ''http://golang.org'' =
       Some [''http://golang.org/test.html'', ''http://golang.org/test2.html'',
             ''http://golang.org/images/gopher.jpg'', ''http://goweeklynews.com'']
   \<and> \<not> isImageLink ''http://golang.org''
   \<and> isSameDomain ''http://golang.org'' ''http://golang.org''"
proof -
  let ?s = "run (testFetcher tester) ''http://golang.org'' 50 (init ''http://golang.org'')"
  have "sitemap ?s ''http://golang.org'' =
      (if ''http://golang.org'' \<in> crawlable (testFetcher tester) ''http://golang.org''
       then Some (getLinks (testFetcher tester) ''http://golang.org'') else None)"
    by (rule final_sitemap[OF fixture_reachable fixture_run_done])
  then have m: "sitemap ?s ''http://golang.org'' =
      Some [''http://golang.org/test.html'', ''http://golang.org/test2.html'',
             ''http://golang.org/images/gopher.jpg'', ''http://goweeklynews.com'']"
    unfolding fixture_links(1) if_P[OF fixture_seed_crawlable] .
  note k = sitemap_keys_eligible[OF fixture_reachable m]
  show ?thesis
    by (intro conjI fixture_reachable m k[THEN conjunct1] k[THEN conjunct2, THEN conjunct1])
qed

text \<open>
  C3. A URL is marked in \<^verbatim>\<open>visited\<close> at most once, at most one worker is spawned for it,
  it is fetched at most once and stored at most once. When the inner loop meets a URL
  already marked, it moves on to the next link and changes nothing. An entry of the
  sitemap, once written, is not changed by any later step; a URL has an entry exactly when
  it has been stored once. When the crawl has completed, every discovered URL has been
  marked, spawned, fetched and stored exactly once.
\<close>

theorem discovered_once:
  assumes r: "reachable F url s"
  shows "count_list (hist s) (Marked u) \<le> 1
    \<and> count_list (hist s) (Spawned u) \<le> 1
    \<and> count_list (hist s) (Fetched u) \<le> 1
    \<and> count_list (hist s) (Stored u) \<le> 1
    \<and> (\<forall>rest. sched s = SRange (u # rest) \<and> u \<in> discovered s \<longrightarrow>
          sstep url s = Some (s\<lparr>sched := SRange rest\<rparr>))
    \<and> (\<forall>l s'. sitemap s u = Some l \<and> step F url s s' \<longrightarrow> sitemap s' u = Some l)
    \<and> ((sitemap s u \<noteq> None) = (count_list (hist s) (Stored u) = 1))
    \<and> (sched s = SDone \<and> u \<in> discovered s \<longrightarrow>
          count_list (hist s) (Marked u) = 1 \<and> count_list (hist s) (Spawned u) = 1
          \<and> count_list (hist s) (Fetched u) = 1 \<and> count_list (hist s) (Stored u) = 1)"
proof -
  note h = hist_marked[OF r, of u] hist_fetched[OF r, of u] hist_stored[OF r, of u]
  have a: "count_list (hist s) (Marked u) \<le> 1 \<and> count_list (hist s) (Spawned u) \<le> 1
    \<and> count_list (hist s) (Fetched u) \<le> 1 \<and> count_list (hist s) (Stored u) \<le> 1"
    using h by simp
  have b: "\<forall>rest. sched s = SRange (u # rest) \<and> u \<in> discovered s \<longrightarrow>
          sstep url s = Some (s\<lparr>sched := SRange rest\<rparr>)"
    by (simp add: sstep_def discovered_def)
  have c: "\<forall>l s'. sitemap s u = Some l \<and> step F url s s' \<longrightarrow> sitemap s' u = Some l"
    using sitemap_stable[OF r] by blast
  have d: "(sitemap s u \<noteq> None) = (count_list (hist s) (Stored u) = 1)"
    using sitemap_inv[OF r, of u] h(3) by simp
  have e: "sched s = SDone \<and> u \<in> discovered s \<longrightarrow>
          count_list (hist s) (Marked u) = 1 \<and> count_list (hist s) (Spawned u) = 1
          \<and> count_list (hist s) (Fetched u) = 1 \<and> count_list (hist s) (Stored u) = 1"
    using h count_inv[OF r] by auto
  from a b c d e show ?thesis by blast
qed

theorem discovered_once_witness:
  "reachable (testFetcher tester) ''http://golang.org''
       (run (testFetcher tester) ''http://golang.org'' 50 (init ''http://golang.org''))
   \<and> count_list (hist (run (testFetcher tester) ''http://golang.org'' 50 (init ''http://golang.org'')))
        (Spawned ''http://golang.org'') = 1
   \<and> count_list (hist (run (testFetcher tester) ''http://golang.org'' 50 (init ''http://golang.org'')))
        (Stored ''http://golang.org'') = 1"
proof -
  let ?s = "run (testFetcher tester) ''http://golang.org'' 50 (init ''http://golang.org'')"
  have gen: "\<And>F url s u. reachable F url s \<Longrightarrow> sched s = SDone \<Longrightarrow> u \<in> discovered s \<Longrightarrow>
      count_list (hist s) (Spawned u) = 1 \<and> count_list (hist s) (Stored u) = 1"
    using discovered_once by blast
  have "''http://golang.org'' \<in> discovered ?s"
    unfolding final_discovered[OF fixture_reachable fixture_run_done]
    by (rule fixture_seed_crawlable)
  note g = gen[OF fixture_reachable fixture_run_done this]
  show ?thesis by (intro conjI fixture_reachable g[THEN conjunct1] g[THEN conjunct2])
qed

text \<open>
  C4. When the crawl has completed, the keys of the sitemap are exactly the URLs that were
  ever marked in \<^verbatim>\<open>visited\<close>, so there are as many entries as discovered URLs; each of
  them was stored once.
\<close>

theorem sitemap_size:
  assumes r: "reachable F url s" and d: "sched s = SDone"
  shows "dom (sitemap s) = {u. Marked u \<in> set (hist s)}
    \<and> card (dom (sitemap s)) = card {u. Marked u \<in> set (hist s)}
    \<and> {u. Marked u \<in> set (hist s)} = discovered s
    \<and> (\<forall>u. Marked u \<in> set (hist s) \<longrightarrow> count_list (hist s) (Stored u) = 1)"
proof -
  have a: "{u. Marked u \<in> set (hist s)} = discovered s" by (rule marked_discovered[OF r])
  have b: "dom (sitemap s) = discovered s"
    using final_dom[OF r d] final_discovered[OF r d] by simp
  have c: "\<forall>u. Marked u \<in> set (hist s) \<longrightarrow> count_list (hist s) (Stored u) = 1"
    using a hist_stored[OF r] count_inv[OF r] d by auto
  from a b c show ?thesis by simp
qed

theorem sitemap_size_witness:
  "reachable (testFetcher tester) ''http://golang.org''
       (run (testFetcher tester) ''http://golang.org'' 50 (init ''http://golang.org''))
   \<and> sched (run (testFetcher tester) ''http://golang.org'' 50 (init ''http://golang.org'')) = SDone
   \<and> card (dom (sitemap (run (testFetcher tester) ''http://golang.org'' 50 (init ''http://golang.org''))))
       = card {u. Marked u \<in> set (hist (run (testFetcher tester) ''http://golang.org'' 50
            (init ''http://golang.org'')))}"
proof -
  note g = sitemap_size[OF fixture_reachable fixture_run_done]
  show ?thesis
    by (intro conjI fixture_reachable fixture_run_done g[THEN conjunct2, THEN conjunct1])
qed

lemma failing_seed_eligible: "eligible ''http://goweeklynews.com'' ''http://goweeklynews.com''"
  by code_simp

lemma failing_seed_answer:
  "testFetcher tester ''http://goweeklynews.com'' =
     Inl ''could not find URL http://goweeklynews.com''"
  by code_simp

lemma failing_seed_reachable:
  "reachable (testFetcher tester) ''http://goweeklynews.com''
     (run (testFetcher tester) ''http://goweeklynews.com'' 20 (init ''http://goweeklynews.com''))"
  by (rule run_reachable) (rule reachable.reach_init)

lemma image_seed_reachable:
  "reachable (testFetcher tester) ''http://golang.org/images/gopher.jpg''
     (run (testFetcher tester) ''http://golang.org/images/gopher.jpg'' 10
        (init ''http://golang.org/images/gopher.jpg''))"
  by (rule run_reachable) (rule reachable.reach_init)

lemma fixture_in_flight:
  "counter (run (testFetcher tester) ''http://golang.org'' 7 (init ''http://golang.org'')) = 1"
  by code_simp

lemma fixture_midway:
  "reachable (testFetcher tester) ''http://golang.org''
     (run (testFetcher tester) ''http://golang.org'' 7 (init ''http://golang.org''))"
  by (rule run_reachable) (rule reachable.reach_init)

lemma image_seed_is_image: "isImageLink ''http://golang.org/images/gopher.jpg''"
  by code_simp

text \<open>
  C7. When the fetch of a URL fails, \<^verbatim>\<open>getLinks\<close> returns the empty list; the page is
  fetched at most once and delivers at most one list; the failure never leaves the crawl
  stuck: some step is possible until the loop has ended. When the crawl has completed and
  the URL was discovered, its error has been printed, its sitemap entry is the empty list,
  and it has been fetched once and has delivered one list.
\<close>

theorem fetch_failure_absorbed:
  assumes r: "reachable F url s" and f: "F u = Inl err"
  shows "getLinks F u = []
    \<and> count_list (hist s) (Fetched u) \<le> 1
    \<and> count_list (hist s) (Delivered u) \<le> 1
    \<and> (sched s \<noteq> SDone \<longrightarrow> (\<exists>s'. step F url s s'))
    \<and> (sched s = SDone \<and> u \<in> discovered s \<longrightarrow>
          err \<in> set (stdout s) \<and> sitemap s u = Some []
          \<and> count_list (hist s) (Fetched u) = 1
          \<and> count_list (hist s) (Delivered u) = 1)"
proof -
  have g: "getLinks F u = []" using f by (simp add: getLinks_def)
  note h = hist_fetched[OF r, of u] hist_delivered[OF r, of u]
  have a: "count_list (hist s) (Fetched u) \<le> 1 \<and> count_list (hist s) (Delivered u) \<le> 1"
    using h by simp
  have c: "sched s \<noteq> SDone \<longrightarrow> (\<exists>s'. step F url s s')"
  proof
    assume "sched s \<noteq> SDone"
    from progress[OF r this] obtain s' where "next_state F url s = Some s'" by auto
    then show "\<exists>s'. step F url s s'" using next_state_step by blast
  qed
  have e: "sched s = SDone \<and> u \<in> discovered s \<longrightarrow>
          err \<in> set (stdout s) \<and> sitemap s u = Some []
          \<and> count_list (hist s) (Fetched u) = 1
          \<and> count_list (hist s) (Delivered u) = 1"
  proof
    assume *: "sched s = SDone \<and> u \<in> discovered s"
    with count_inv[OF r] have e: "gs s = []" by simp
    have "err \<in> set (stdout s)" using stdout_inv[OF r, of err] * e f by auto
    moreover have "sitemap s u = Some []" using sitemap_inv[OF r, of u] * e g by simp
    ultimately show "err \<in> set (stdout s) \<and> sitemap s u = Some []
          \<and> count_list (hist s) (Fetched u) = 1
          \<and> count_list (hist s) (Delivered u) = 1"
      using h * e by simp
  qed
  from g a c e show ?thesis by blast
qed

theorem fetch_failure_absorbed_witness:
  "reachable (testFetcher tester) ''http://goweeklynews.com''
     (run (testFetcher tester) ''http://goweeklynews.com'' 20 (init ''http://goweeklynews.com''))
   \<and> testFetcher tester ''http://goweeklynews.com'' =
       Inl ''could not find URL http://goweeklynews.com''
   \<and> sched (run (testFetcher tester) ''http://goweeklynews.com'' 20
        (init ''http://goweeklynews.com'')) = SDone
   \<and> ''could not find URL http://goweeklynews.com'' \<in>
       set (stdout (run (testFetcher tester) ''http://goweeklynews.com'' 20
         (init ''http://goweeklynews.com'')))
   \<and> sitemap (run (testFetcher tester) ''http://goweeklynews.com'' 20
        (init ''http://goweeklynews.com'')) ''http://goweeklynews.com'' = Some []"
proof -
  let ?s = "run (testFetcher tester) ''http://goweeklynews.com'' 20 (init ''http://goweeklynews.com'')"
  have gen: "\<And>F url s u err. reachable F url s \<Longrightarrow> F u = Inl err \<Longrightarrow> sched s = SDone
      \<Longrightarrow> u \<in> discovered s \<Longrightarrow> err \<in> set (stdout s) \<and> sitemap s u = Some []"
    using fetch_failure_absorbed by blast
  have "''http://goweeklynews.com'' \<in> discovered ?s"
    unfolding final_discovered[OF failing_seed_reachable failing_seed_done]
    by (rule crawlable.seed) (rule failing_seed_eligible)
  note g = gen[OF failing_seed_reachable failing_seed_answer failing_seed_done this]
  show ?thesis
    by (intro conjI failing_seed_reachable failing_seed_answer failing_seed_done
        g[THEN conjunct1] g[THEN conjunct2])
qed

lemma crawlable_eligible: "u \<in> crawlable F url \<Longrightarrow> eligible url u"
  by (induction rule: crawlable.induct) auto

lemma not_crawlable: "\<not> eligible url u \<Longrightarrow> u \<notin> crawlable F url"
  using crawlable_eligible by blast

lemma card_four: "distinct [a, b, c, d] \<Longrightarrow> card {a, b, c, d} = 4"
  by simp

lemma same_lengths:
  "m = m' \<Longrightarrow> \<forall>u \<in> dom m. map_option length (m u) = map_option length (m' u)"
  by simp

lemma fixture_table: "set (map fst tester) = crawlable (testFetcher tester) ''http://golang.org''"
  unfolding fixture_crawlable by (rule fixture_keys)

lemma isSameDomain_refl: "isSameDomain url url"
  by (simp add: isSameDomain_def HasPrefix_def)

text \<open>
  C9. The crawl of \<^verbatim>\<open>http://golang.org\<close> against the test table: a run of the crawl
  completes with the table as sitemap, and whenever the crawl has completed, the sitemap
  has exactly the 4 keys golang.org, test.html, test2.html and testing.html; the image URL
  and the two external URLs are not keys; each value is as long as the table's list for
  that page (the sitemap is the table).
\<close>

theorem fixture_sitemap:
  assumes r: "reachable (testFetcher tester) ''http://golang.org'' s" and d: "sched s = SDone"
  shows "dom (sitemap s) =
       {''http://golang.org'', ''http://golang.org/test.html'',
        ''http://golang.org/test2.html'', ''http://golang.org/testing.html''}
    \<and> card (dom (sitemap s)) = 4
    \<and> ''http://golang.org/images/gopher.jpg'' \<notin> dom (sitemap s)
    \<and> ''http://goweeklynews.com'' \<notin> dom (sitemap s)
    \<and> ''http://linkedin.com/golang'' \<notin> dom (sitemap s)
    \<and> (\<forall>u \<in> dom (sitemap s). map_option length (sitemap s u) = map_option length (map_of tester u))
    \<and> sitemap s = map_of tester
    \<and> (\<exists>k. crawlDomain (testFetcher tester) ''http://golang.org'' k = Some (map_of tester))"
proof -
  note dm = final_dom[OF r d]
  have a: "dom (sitemap s) =
       {''http://golang.org'', ''http://golang.org/test.html'',
        ''http://golang.org/test2.html'', ''http://golang.org/testing.html''}"
    unfolding dm by (rule fixture_crawlable)
  have b: "card (dom (sitemap s)) = 4"
    unfolding a by (rule card_four[OF fixture_distinct])
  have c1: "''http://golang.org/images/gopher.jpg'' \<notin> dom (sitemap s)"
    unfolding dm by (rule not_crawlable[OF fixture_eligible(5)])
  have c2: "''http://goweeklynews.com'' \<notin> dom (sitemap s)"
    unfolding dm by (rule not_crawlable[OF fixture_eligible(6)])
  have c3: "''http://linkedin.com/golang'' \<notin> dom (sitemap s)"
    unfolding dm by (rule not_crawlable[OF fixture_eligible(7)])
  have "sitemap s = (\<lambda>u. if u \<in> crawlable (testFetcher tester) ''http://golang.org''
      then Some (getLinks (testFetcher tester) u) else None)"
    by (rule ext) (rule final_sitemap[OF r d])
  then have e: "sitemap s = map_of tester"
    unfolding table_sitemap[OF fixture_table] .
  note f = same_lengths[OF e]
  have "crawlDomain (testFetcher tester) ''http://golang.org''
      (steps_left (testFetcher tester) ''http://golang.org'' (init ''http://golang.org''))
      = Some (map_of tester)"
    using crawl_completes[OF fixture_finite] unfolding table_sitemap[OF fixture_table] .
  then have g: "\<exists>k. crawlDomain (testFetcher tester) ''http://golang.org'' k = Some (map_of tester)"
    by (rule exI)
  show ?thesis by (intro conjI a b c1 c2 c3 e f g)
qed

theorem fixture_sitemap_witness:
  "reachable (testFetcher tester) ''http://golang.org''
       (run (testFetcher tester) ''http://golang.org'' 50 (init ''http://golang.org''))
   \<and> sched (run (testFetcher tester) ''http://golang.org'' 50 (init ''http://golang.org'')) = SDone
   \<and> card (dom (sitemap (run (testFetcher tester) ''http://golang.org'' 50
        (init ''http://golang.org'')))) = 4
   \<and> sitemap (run (testFetcher tester) ''http://golang.org'' 50 (init ''http://golang.org''))
       = map_of tester"
proof -
  note g = fixture_sitemap[OF fixture_reachable fixture_run_done]
  show ?thesis
    by (intro conjI fixture_reachable fixture_run_done g[THEN conjunct2, THEN conjunct1]
        g[THEN conjunct2, THEN conjunct2, THEN conjunct2, THEN conjunct2, THEN conjunct2,
          THEN conjunct2, THEN conjunct1])
qed

text \<open>The first steps of the run, for any fetcher and any seed.\<close>

lemma image_seed_run:
  assumes "isImageLink url"
  shows "run F url 5 (init url) =
     \<lparr> visited = Map.empty, sitemap = Map.empty, n_left = 0, counter = 0, mutex = False,
       sched = SDone, gs = [], stdout = [], hist = [SeedDelivered, Decremented] \<rparr>"
  using assms
  by (simp add: eval_nat_numeral next_state_def sstep_def init_def resume_def)

lemma seed_run_8:
  assumes "\<not> isImageLink url"
  shows "run F url 8 (init url) =
     \<lparr> visited = [url \<mapsto> True], sitemap = Map.empty, n_left = 1, counter = 0, mutex = False,
       sched = SRecv, gs = [GLock url (getLinks F url)],
       stdout = (case F url of Inl err \<Rightarrow> [err] | Inr links \<Rightarrow> []),
       hist = [SeedDelivered, Marked url, Spawned url, Decremented,
               Acquired url, Fetched url, Released url] \<rparr>"
  using assms
  by (cases "F url")
     (simp_all add: eval_nat_numeral next_state_def sstep_def init_def resume_def lookup_def
        isSameDomain_refl counter_cap_def getLinks_def)

lemma seed_run_10:
  assumes "\<not> isImageLink url"
  shows "run F url 10 (init url) =
     \<lparr> visited = [url \<mapsto> True], sitemap = [url \<mapsto> getLinks F url], n_left = 1, counter = 0,
       mutex = True, sched = SRecv, gs = [GUnlock url (getLinks F url)],
       stdout = (case F url of Inl err \<Rightarrow> [err] | Inr links \<Rightarrow> []),
       hist = [SeedDelivered, Marked url, Spawned url, Decremented,
               Acquired url, Fetched url, Released url, Stored url] \<rparr>"
  using assms
  by (cases "F url")
     (simp_all add: eval_nat_numeral next_state_def sstep_def init_def resume_def lookup_def
        isSameDomain_refl counter_cap_def getLinks_def)

lemma fixture_seed_discovered:
  "''http://golang.org'' \<in> discovered
     (run (testFetcher tester) ''http://golang.org'' 50 (init ''http://golang.org''))"
  unfolding final_discovered[OF fixture_reachable fixture_run_done]
  by (rule fixture_seed_crawlable)

lemma fixture_seed_not_image: "\<not> isImageLink ''http://golang.org''"
  by code_simp

lemma release_ready:
  assumes r: "reachable F url s" and g: "GRelease u a \<in> set (gs s)"
  shows "\<exists>l t. gstep F s (GRelease u a) = Some (Some (GLock u l), t) \<and> counter t + 1 = counter s"
proof -
  have "in_flight (GRelease u a)" by simp
  with g have "filter in_flight (gs s) \<noteq> []" unfolding filter_empty_conv by blast
  with limiter_inv[OF r] have "0 < counter s" by auto
  then show ?thesis by (cases a) auto
qed

text \<open>
  C8. The limiter \<^verbatim>\<open>counter\<close> has capacity 20. At every moment of a crawl the number of
  fetches in flight (goroutines between the send on \<^verbatim>\<open>counter\<close> and the receive from it) is
  the number of slots taken, which is the number of acquisitions minus the number of
  releases so far, and it is at most 20. For each URL the slot is acquired at most once, the
  fetch comes after the acquisition and the release after the fetch. The acquisition goes
  through exactly when fewer than 20 slots are taken; it takes one slot and leads to the
  fetch. The fetch always leads to the release, with the slot still held. The release of a
  live worker is always possible and gives one slot back, whatever the fetcher answered,
  error or links. The crawl is never stuck before the loop has ended, and with finitely
  many pages to crawl a run of it completes. When the crawl has completed, no slot is
  taken and every discovered URL has had its acquisition, its fetch and its release, once
  each. For a seed that is not an image, the first 8 steps of the run are the delivery of
  the seed, its marking, the spawn of its worker, the decrement, and then the acquisition,
  the fetch and the release, in this order, after which no slot is taken.
\<close>

theorem limiter_bound:
  assumes r: "reachable F url s"
  shows "counter_cap = 20
    \<and> length (filter in_flight (gs s)) = counter s
    \<and> length (filter in_flight (gs s)) \<le> 20
    \<and> counter s + length (filter is_release (hist s)) = length (filter is_acquire (hist s))
    \<and> count_list (hist s) (Released u) \<le> count_list (hist s) (Fetched u)
    \<and> count_list (hist s) (Fetched u) \<le> count_list (hist s) (Acquired u)
    \<and> count_list (hist s) (Acquired u) \<le> 1
    \<and> (\<forall>g t. gstep F s (GAcquire u) = Some (g, t) \<longrightarrow>
          g = Some (GGet u) \<and> counter t = counter s + 1)
    \<and> (\<forall>a g t. gstep F s (GRelease u a) = Some (g, t) \<longrightarrow> counter t + 1 = counter s)
    \<and> (sched s = SDone \<longrightarrow>
          counter s = 0
          \<and> count_list (hist s) (Fetched u) = count_list (hist s) (Acquired u)
          \<and> count_list (hist s) (Released u) = count_list (hist s) (Acquired u))
    \<and> (counter s < 20 \<longrightarrow>
          (\<exists>t. gstep F s (GAcquire u) = Some (Some (GGet u), t) \<and> counter t = counter s + 1))
    \<and> (\<not> counter s < 20 \<longrightarrow> gstep F s (GAcquire u) = None)
    \<and> (\<exists>t. gstep F s (GGet u) = Some (Some (GRelease u (F u)), t) \<and> counter t = counter s)
    \<and> (\<forall>a. GRelease u a \<in> set (gs s) \<longrightarrow>
          (\<exists>l t. gstep F s (GRelease u a) = Some (Some (GLock u l), t)
             \<and> counter t + 1 = counter s))
    \<and> (sched s \<noteq> SDone \<longrightarrow> (\<exists>s'. step F url s s'))
    \<and> (finite (crawlable F url) \<longrightarrow> (\<exists>k m. crawlDomain F url k = Some m))
    \<and> (sched s = SDone \<and> u \<in> discovered s \<longrightarrow>
          count_list (hist s) (Acquired u) = 1
          \<and> count_list (hist s) (Fetched u) = 1
          \<and> count_list (hist s) (Released u) = 1)
    \<and> (\<not> isImageLink url \<longrightarrow>
          hist (run F url 8 (init url)) =
            [SeedDelivered, Marked url, Spawned url, Decremented,
             Acquired url, Fetched url, Released url]
          \<and> counter (run F url 8 (init url)) = 0)"
proof -
  note l = limiter_inv[OF r]
  have p: "\<forall>g t. gstep F s (GAcquire u) = Some (g, t) \<longrightarrow>
          g = Some (GGet u) \<and> counter t = counter s + 1"
    by (auto split: if_splits)
  have q: "\<forall>a g t. gstep F s (GRelease u a) = Some (g, t) \<longrightarrow> counter t + 1 = counter s"
    by (auto split: if_splits sum.splits)
  have a: "length (filter in_flight (gs s)) = counter s \<and> length (filter in_flight (gs s)) \<le> 20"
    using l by (simp add: counter_cap_def)
  note h = hist_acquired[OF r, of u] hist_fetched[OF r, of u] hist_released[OF r, of u]
  have mono: "\<And>j k. j \<le> k \<Longrightarrow> u \<in> before j (gs s) \<Longrightarrow> u \<in> before k (gs s)"
    by (auto simp: before_def live_def)
  have b: "count_list (hist s) (Released u) \<le> count_list (hist s) (Fetched u)"
    using h(2,3) mono[of 2 3] by (simp split: if_splits)
  have c: "count_list (hist s) (Fetched u) \<le> count_list (hist s) (Acquired u)"
    using h(1,2) mono[of 1 2] by (simp split: if_splits)
  have d: "count_list (hist s) (Acquired u) \<le> 1" using h(1) by simp
  have e: "sched s = SDone \<longrightarrow>
          counter s = 0
          \<and> count_list (hist s) (Fetched u) = count_list (hist s) (Acquired u)
          \<and> count_list (hist s) (Released u) = count_list (hist s) (Acquired u)"
    using h l count_inv[OF r] by simp
  have f: "counter_cap = 20" by (simp add: counter_cap_def)
  have a1: "counter s < 20 \<longrightarrow>
          (\<exists>t. gstep F s (GAcquire u) = Some (Some (GGet u), t) \<and> counter t = counter s + 1)"
    by (simp add: counter_cap_def)
  have a2: "\<not> counter s < 20 \<longrightarrow> gstep F s (GAcquire u) = None"
    by (simp add: counter_cap_def)
  have a3: "\<exists>t. gstep F s (GGet u) = Some (Some (GRelease u (F u)), t) \<and> counter t = counter s"
    by simp
  have a4: "\<forall>a. GRelease u a \<in> set (gs s) \<longrightarrow>
          (\<exists>l t. gstep F s (GRelease u a) = Some (Some (GLock u l), t)
             \<and> counter t + 1 = counter s)"
    using release_ready[OF r] by blast
  have a5: "sched s \<noteq> SDone \<longrightarrow> (\<exists>s'. step F url s s')"
  proof
    assume "sched s \<noteq> SDone"
    from progress[OF r this] obtain s' where "next_state F url s = Some s'" by auto
    then show "\<exists>s'. step F url s s'" using next_state_step by blast
  qed
  have a6: "finite (crawlable F url) \<longrightarrow> (\<exists>k m. crawlDomain F url k = Some m)"
    using crawl_completes by blast
  have a7: "sched s = SDone \<and> u \<in> discovered s \<longrightarrow>
          count_list (hist s) (Acquired u) = 1
          \<and> count_list (hist s) (Fetched u) = 1
          \<and> count_list (hist s) (Released u) = 1"
    using h count_inv[OF r] by auto
  have a8: "\<not> isImageLink url \<longrightarrow>
          hist (run F url 8 (init url)) =
            [SeedDelivered, Marked url, Spawned url, Decremented,
             Acquired url, Fetched url, Released url]
          \<and> counter (run F url 8 (init url)) = 0"
    by (simp add: seed_run_8)
  note sl = slots_inv[OF r]
  show ?thesis
    by (intro conjI f a[THEN conjunct1] a[THEN conjunct2] sl b c d p q e a1 a2 a3 a4 a5 a6 a7
        a8[rule_format, THEN conjunct1] a8[rule_format, THEN conjunct2] impI)
qed

theorem limiter_bound_witness:
  "reachable (testFetcher tester) ''http://golang.org''
       (run (testFetcher tester) ''http://golang.org'' 7 (init ''http://golang.org''))
   \<and> counter (run (testFetcher tester) ''http://golang.org'' 7 (init ''http://golang.org'')) = 1
   \<and> length (filter in_flight
        (gs (run (testFetcher tester) ''http://golang.org'' 7 (init ''http://golang.org''))))
       = counter (run (testFetcher tester) ''http://golang.org'' 7 (init ''http://golang.org''))
   \<and> length (filter in_flight
        (gs (run (testFetcher tester) ''http://golang.org'' 7 (init ''http://golang.org'')))) \<le> 20
   \<and> sched (run (testFetcher tester) ''http://golang.org'' 50 (init ''http://golang.org'')) = SDone
   \<and> count_list (hist (run (testFetcher tester) ''http://golang.org'' 50
        (init ''http://golang.org''))) (Acquired ''http://golang.org'') = 1
   \<and> count_list (hist (run (testFetcher tester) ''http://golang.org'' 50
        (init ''http://golang.org''))) (Released ''http://golang.org'') = 1"
proof -
  have gen: "length (filter in_flight (gs s)) = counter s \<and> length (filter in_flight (gs s)) \<le> 20"
    if "reachable F url s" for F url s
    using limiter_bound[OF that] by blast
  have gen2: "count_list (hist s) (Acquired u) = 1 \<and> count_list (hist s) (Released u) = 1"
    if "reachable F url s" "sched s = SDone" "u \<in> discovered s" for F url s u
    using limiter_bound[OF that(1), of u] that(2,3) by blast
  note g = gen[OF fixture_midway]
  note g2 = gen2[OF fixture_reachable fixture_run_done fixture_seed_discovered]
  show ?thesis
    by (intro conjI fixture_midway fixture_in_flight g[THEN conjunct1] g[THEN conjunct2]
        fixture_run_done g2[THEN conjunct1] g2[THEN conjunct2])
qed

lemma image_seed_nothing:
  assumes r: "reachable F url s" and i: "isImageLink url"
  shows "sitemap s = Map.empty \<and> (\<forall>u. count_list (hist s) (Fetched u) = 0)"
proof -
  from i have "\<not> eligible url url" by (simp add: eligible_def)
  then have c: "crawlable F url = {}" by (rule crawlable_ineligible_seed)
  with reach_inv[OF r] have d: "discovered s = {}" by simp
  have "sitemap s u = None" for u using sitemap_inv[OF r, of u] d by simp
  then have "sitemap s = Map.empty" by (intro ext)
  moreover have "count_list (hist s) (Fetched u) = 0" for u
    using hist_fetched[OF r, of u] d by simp
  ultimately show ?thesis by simp
qed

text \<open>
  C10. The seed goes through the same test as every link. \<^verbatim>\<open>isSameDomain(url, url)\<close> is
  true for every seed, and the crawl is never stuck before the loop has ended. If the seed
  is an image link, the crawl ends after 5 steps of the run with the empty sitemap, having
  received the seed and decremented the count and nothing else; no fetch ever happens and
  the sitemap is empty throughout. If the seed is not an image link, then whatever the
  fetcher answers, after 10 steps of the run the seed has been fetched once and is a key of
  the sitemap, with the list \<^verbatim>\<open>getLinks\<close> returned; with finitely many pages to crawl, a run
  completes and returns a sitemap that has the seed as a key. Whenever the crawl has
  completed: for an image seed nothing was fetched and the sitemap is empty, for any other
  seed the seed was fetched once and is a key.
\<close>

theorem seed_filtered:
  assumes r: "reachable F url s"
  shows "isSameDomain url url
    \<and> (sched s \<noteq> SDone \<longrightarrow> (\<exists>s'. step F url s s'))
    \<and> (isImageLink url \<longrightarrow>
          crawlDomain F url 5 = Some Map.empty
          \<and> hist (run F url 5 (init url)) = [SeedDelivered, Decremented]
          \<and> sitemap s = Map.empty
          \<and> (\<forall>u. count_list (hist s) (Fetched u) = 0))
    \<and> (\<not> isImageLink url \<longrightarrow>
          reachable F url (run F url 10 (init url))
          \<and> sitemap (run F url 10 (init url)) url = Some (getLinks F url)
          \<and> count_list (hist (run F url 10 (init url))) (Fetched url) = 1)
    \<and> (\<not> isImageLink url \<and> finite (crawlable F url) \<longrightarrow>
          (\<exists>k m. crawlDomain F url k = Some m \<and> url \<in> dom m))
    \<and> (sched s = SDone \<longrightarrow>
          (if isImageLink url
           then sitemap s = Map.empty \<and> (\<forall>u. count_list (hist s) (Fetched u) = 0)
                \<and> (\<exists>k. crawlDomain F url k = Some Map.empty)
           else url \<in> dom (sitemap s) \<and> count_list (hist s) (Fetched url) = 1))"
proof -
  have a1: "sched s \<noteq> SDone \<longrightarrow> (\<exists>s'. step F url s s')"
  proof
    assume "sched s \<noteq> SDone"
    from progress[OF r this] obtain s' where "next_state F url s = Some s'" by auto
    then show "\<exists>s'. step F url s s'" using next_state_step by blast
  qed
  have a2: "isImageLink url \<longrightarrow>
          crawlDomain F url 5 = Some Map.empty
          \<and> hist (run F url 5 (init url)) = [SeedDelivered, Decremented]
          \<and> sitemap s = Map.empty
          \<and> (\<forall>u. count_list (hist s) (Fetched u) = 0)"
  proof
    assume i: "isImageLink url"
    have "crawlDomain F url 5 = Some Map.empty"
      by (simp add: crawlDomain_def image_seed_run[OF i])
    moreover have "hist (run F url 5 (init url)) = [SeedDelivered, Decremented]"
      by (simp add: image_seed_run[OF i])
    ultimately show "crawlDomain F url 5 = Some Map.empty
          \<and> hist (run F url 5 (init url)) = [SeedDelivered, Decremented]
          \<and> sitemap s = Map.empty
          \<and> (\<forall>u. count_list (hist s) (Fetched u) = 0)"
      using image_seed_nothing[OF r i] by simp
  qed
  have a3: "\<not> isImageLink url \<longrightarrow>
          reachable F url (run F url 10 (init url))
          \<and> sitemap (run F url 10 (init url)) url = Some (getLinks F url)
          \<and> count_list (hist (run F url 10 (init url))) (Fetched url) = 1"
  proof
    assume n: "\<not> isImageLink url"
    have "reachable F url (run F url 10 (init url))"
      by (rule run_reachable) (rule reachable.reach_init)
    then show "reachable F url (run F url 10 (init url))
          \<and> sitemap (run F url 10 (init url)) url = Some (getLinks F url)
          \<and> count_list (hist (run F url 10 (init url))) (Fetched url) = 1"
      by (simp add: seed_run_10[OF n])
  qed
  have a4: "\<not> isImageLink url \<and> finite (crawlable F url) \<longrightarrow>
          (\<exists>k m. crawlDomain F url k = Some m \<and> url \<in> dom m)"
  proof
    assume *: "\<not> isImageLink url \<and> finite (crawlable F url)"
    then have "eligible url url" by (simp add: eligible_def isSameDomain_refl)
    then have c: "url \<in> crawlable F url" by (rule crawlable.seed)
    from * crawl_completes[of F url] have "crawlDomain F url (steps_left F url (init url)) =
        Some (\<lambda>u. if u \<in> crawlable F url then Some (getLinks F u) else None)" by simp
    moreover have "url \<in> dom (\<lambda>u. if u \<in> crawlable F url then Some (getLinks F u) else None)"
      using c by (simp add: dom_def)
    ultimately show "\<exists>k m. crawlDomain F url k = Some m \<and> url \<in> dom m" by blast
  qed
  have a5: "sched s = SDone \<longrightarrow>
          (if isImageLink url
           then sitemap s = Map.empty \<and> (\<forall>u. count_list (hist s) (Fetched u) = 0)
                \<and> (\<exists>k. crawlDomain F url k = Some Map.empty)
           else url \<in> dom (sitemap s) \<and> count_list (hist s) (Fetched url) = 1)"
  proof
    assume d: "sched s = SDone"
    show "if isImageLink url
           then sitemap s = Map.empty \<and> (\<forall>u. count_list (hist s) (Fetched u) = 0)
                \<and> (\<exists>k. crawlDomain F url k = Some Map.empty)
           else url \<in> dom (sitemap s) \<and> count_list (hist s) (Fetched url) = 1"
    proof (cases "isImageLink url")
      case True
      with a2 have "\<exists>k. crawlDomain F url k = Some Map.empty" by blast
      with True image_seed_nothing[OF r True] show ?thesis by simp
    next
      case False
      then have "eligible url url" by (simp add: eligible_def isSameDomain_refl)
      then have c: "url \<in> crawlable F url" by (rule crawlable.seed)
      then have "url \<in> dom (sitemap s)" unfolding final_dom[OF r d] .
      moreover have "count_list (hist s) (Fetched url) = 1"
        using hist_fetched[OF r, of url] final_discovered[OF r d] c count_inv[OF r] d by simp
      ultimately show ?thesis using False by simp
    qed
  qed
  show ?thesis by (intro conjI isSameDomain_refl a1 a2 a3 a4 a5)
qed

theorem seed_filtered_witness:
  "reachable (testFetcher tester) ''http://golang.org/images/gopher.jpg''
     (run (testFetcher tester) ''http://golang.org/images/gopher.jpg'' 10
        (init ''http://golang.org/images/gopher.jpg''))
   \<and> sched (run (testFetcher tester) ''http://golang.org/images/gopher.jpg'' 10
        (init ''http://golang.org/images/gopher.jpg'')) = SDone
   \<and> isImageLink ''http://golang.org/images/gopher.jpg''
   \<and> sitemap (run (testFetcher tester) ''http://golang.org/images/gopher.jpg'' 10
        (init ''http://golang.org/images/gopher.jpg'')) = Map.empty
   \<and> reachable (testFetcher tester) ''http://golang.org''
       (run (testFetcher tester) ''http://golang.org'' 50 (init ''http://golang.org''))
   \<and> sched (run (testFetcher tester) ''http://golang.org'' 50 (init ''http://golang.org'')) = SDone
   \<and> \<not> isImageLink ''http://golang.org''
   \<and> ''http://golang.org'' \<in> dom (sitemap
        (run (testFetcher tester) ''http://golang.org'' 50 (init ''http://golang.org'')))
   \<and> count_list (hist (run (testFetcher tester) ''http://golang.org'' 50
        (init ''http://golang.org''))) (Fetched ''http://golang.org'') = 1
   \<and> sitemap (run (testFetcher tester) ''http://golang.org'' 10 (init ''http://golang.org''))
        ''http://golang.org'' = Some (getLinks (testFetcher tester) ''http://golang.org'')"
proof -
  have gen: "sitemap s = Map.empty" if "reachable F url s" "isImageLink url" for F url s
    using seed_filtered[OF that(1)] that(2) by blast
  have gen2: "url \<in> dom (sitemap s) \<and> count_list (hist s) (Fetched url) = 1"
    if "reachable F url s" "sched s = SDone" "\<not> isImageLink url" for F url s
    using seed_filtered[OF that(1)] that(2,3) by simp
  have gen3: "sitemap (run F url 10 (init url)) url = Some (getLinks F url)"
    if "\<not> isImageLink url" for F url
    using seed_filtered[OF reachable.reach_init[of F url]] that by blast
  note g = gen[OF image_seed_reachable image_seed_is_image]
  note g2 = gen2[OF fixture_reachable fixture_run_done fixture_seed_not_image]
  note g3 = gen3[OF fixture_seed_not_image]
  show ?thesis
    by (intro conjI image_seed_reachable image_seed_done image_seed_is_image g
        fixture_reachable fixture_run_done fixture_seed_not_image
        g2[THEN conjunct1] g2[THEN conjunct2] g3)
qed

end
